theory Spec2Isabelle
  imports Main "HOL-Library.AList"
begin

section \<open>The document tree\<close>

text \<open>
  The page-enhancement script \<^verbatim>\<open>assets/js/jupyterbook.js\<close> works on the browser's
  document. The document is modelled as the tree under \<^verbatim>\<open>document.documentElement\<close>.
  Every element carries an identity \<open>nid\<close>, which is what a JavaScript reference to the
  element denotes; a \<^verbatim>\<open>NodeList\<close> is a list of identities. Tag names are the lower-case
  local names. The \<^verbatim>\<open>class\<close> attribute is kept as its token list (\<^verbatim>\<open>classList\<close>), every
  other attribute in an association list in source order.
\<close>

datatype node =
    Element (nid: nat) (tagName: string) (attrs: "(string \<times> string) list")
            (classList: "string list") (childNodes: "node list")
  | Text string

text \<open>What a selector can see of one element: everything but its children.\<close>

datatype einfo =
  EInfo (enid: nat) (etag: string) (eattrs: "(string \<times> string) list") (eclasses: "string list")

fun info :: "node \<Rightarrow> einfo option" where
  "info (Element i t a c cs) = Some (EInfo i t a c)"
| "info (Text s) = None"

text \<open>
  The position of an element: itself with its preceding element siblings (nearest first),
  then its parent with the parent's preceding element siblings, and so on up to the root.
\<close>

type_synonym level = "einfo \<times> einfo list"

type_synonym position = "level list"

fun annot :: "position \<Rightarrow> einfo list \<Rightarrow> node \<Rightarrow> position list"
  and annot_children :: "position \<Rightarrow> einfo list \<Rightarrow> node list \<Rightarrow> position list" where
  "annot up prevs (Text s) = []"
| "annot up prevs (Element i t a c cs) =
     ((EInfo i t a c, prevs) # up) # annot_children ((EInfo i t a c, prevs) # up) [] cs"
| "annot_children up prevs [] = []"
| "annot_children up prevs (n # ns) =
     annot up prevs n @
     annot_children up (case info n of None \<Rightarrow> prevs | Some e \<Rightarrow> e # prevs) ns"

definition positions :: "node \<Rightarrow> position list" where
  "positions d = annot [] [] d"

text \<open>The elements of the tree in document order.\<close>

fun infos :: "node \<Rightarrow> einfo list" where
  "infos (Text s) = []"
| "infos (Element i t a c cs) = EInfo i t a c # concat (map infos cs)"

definition self :: "position \<Rightarrow> einfo" where
  "self p = fst (hd p)"

definition ancestors :: "position \<Rightarrow> einfo list" where
  "ancestors p = map fst (tl p)"

definition lookup :: "nat \<Rightarrow> node \<Rightarrow> einfo option" where
  "lookup n d = find (\<lambda>e. enid e = n) (infos d)"

definition position_of :: "nat \<Rightarrow> node \<Rightarrow> position option" where
  "position_of n d = find (\<lambda>p. enid (self p) = n) (positions d)"

subsection \<open>Selectors\<close>

text \<open>
  The selectors the script uses, parsed: a compound selector is an optional tag, an
  optional \<^verbatim>\<open>#id\<close> and a list of classes; complex selectors are built with the descendant
  (blank), child (\<^verbatim>\<open>>\<close>) and adjacent-sibling (\<^verbatim>\<open>+\<close>) combinators, which associate to the
  left. A selector list (\<^verbatim>\<open>a, b\<close>) is a list of selectors.
\<close>

datatype compound =
  Compound (ctag: "string option") (cident: "string option") (cclasses: "string list")

datatype selector =
    Simple compound
  | Descendant selector compound
  | Child selector compound
  | Adjacent selector compound

fun cmatch :: "compound \<Rightarrow> einfo \<Rightarrow> bool" where
  "cmatch (Compound t i cl) (EInfo n tg a c) =
     ((case t of None \<Rightarrow> True | Some x \<Rightarrow> x = tg) \<and>
      (case i of None \<Rightarrow> True | Some x \<Rightarrow> map_of a ''id'' = Some x) \<and>
      list_all (\<lambda>k. k \<in> set c) cl)"

fun any_ancestor :: "(position \<Rightarrow> bool) \<Rightarrow> position \<Rightarrow> bool" where
  "any_ancestor P [] = False"
| "any_ancestor P (l # up) = (P (l # up) \<or> any_ancestor P up)"

primrec matches :: "selector \<Rightarrow> position \<Rightarrow> bool" where
  "matches (Simple c) p = (case p of [] \<Rightarrow> False | (e, ps) # up \<Rightarrow> cmatch c e)"
| "matches (Descendant sel c) p =
     (case p of [] \<Rightarrow> False
      | (e, ps) # up \<Rightarrow> cmatch c e \<and> any_ancestor (matches sel) up)"
| "matches (Child sel c) p =
     (case p of [] \<Rightarrow> False | (e, ps) # up \<Rightarrow> cmatch c e \<and> matches sel up)"
| "matches (Adjacent sel c) p =
     (case p of [] \<Rightarrow> False
      | (e, ps) # up \<Rightarrow>
          cmatch c e \<and> (case ps of [] \<Rightarrow> False | q # qs \<Rightarrow> matches sel ((q, qs) # up)))"

definition matches_any :: "selector list \<Rightarrow> position \<Rightarrow> bool" where
  "matches_any sels p = list_ex (\<lambda>sel. matches sel p) sels"

text \<open>\<^verbatim>\<open>document.querySelectorAll\<close>: the matching elements in document order.\<close>

definition querySelectorAll :: "selector list \<Rightarrow> node \<Rightarrow> nat list" where
  "querySelectorAll sels d = map (\<lambda>p. enid (self p)) (filter (matches_any sels) (positions d))"

text \<open>\<^verbatim>\<open>document.querySelector\<close>: the first match, or null.\<close>

definition querySelector :: "selector list \<Rightarrow> node \<Rightarrow> nat option" where
  "querySelector sels d = (case querySelectorAll sels d of [] \<Rightarrow> None | n # ns \<Rightarrow> Some n)"

text \<open>
  \<^verbatim>\<open>element.querySelector\<close>: the first match among the proper descendants of the element
  (the selector itself is still matched against the whole document).
\<close>

definition querySelector_within :: "nat \<Rightarrow> selector list \<Rightarrow> node \<Rightarrow> nat option" where
  "querySelector_within n sels d =
     (case filter (\<lambda>p. n \<in> set (map enid (ancestors p)) \<and> matches_any sels p) (positions d) of
        [] \<Rightarrow> None
      | p # ps \<Rightarrow> Some (enid (self p)))"

text \<open>\<^verbatim>\<open>document.getElementById\<close>: the first element in document order with that id.\<close>

definition getElementById :: "string \<Rightarrow> node \<Rightarrow> nat option" where
  "getElementById x d =
     (if x = [] then None
      else map_option enid (find (\<lambda>e. map_of (eattrs e) ''id'' = Some x) (infos d)))"

subsection \<open>Reading and writing elements\<close>

text \<open>
  A reference to an element that is not in the document tree denotes a detached node,
  whose content the model does not hold: reading from it gives null, writing to it
  leaves the document as it is.
\<close>

definition getAttribute :: "nat \<Rightarrow> string \<Rightarrow> node \<Rightarrow> string option" where
  "getAttribute n k d = (case lookup n d of None \<Rightarrow> None | Some e \<Rightarrow> map_of (eattrs e) k)"

definition classList_contains :: "nat \<Rightarrow> string \<Rightarrow> node \<Rightarrow> bool" where
  "classList_contains n k d = (case lookup n d of None \<Rightarrow> False | Some e \<Rightarrow> k \<in> set (eclasses e))"

text \<open>Apply a change of tag, attributes or classes to every element it concerns.\<close>

fun map_info :: "(einfo \<Rightarrow> einfo) \<Rightarrow> node \<Rightarrow> node" where
  "map_info g (Text s) = Text s"
| "map_info g (Element i t a c cs) =
     (case g (EInfo i t a c) of EInfo i' t' a' c' \<Rightarrow> Element i' t' a' c' (map (map_info g) cs))"

definition at_node :: "nat \<Rightarrow> (einfo \<Rightarrow> einfo) \<Rightarrow> einfo \<Rightarrow> einfo" where
  "at_node n f e = (if enid e = n then f e else e)"

fun set_attr :: "string \<Rightarrow> string \<Rightarrow> einfo \<Rightarrow> einfo" where
  "set_attr k v (EInfo i t a c) = EInfo i t (AList.update k v a) c"

fun add_class :: "string \<Rightarrow> einfo \<Rightarrow> einfo" where
  "add_class k (EInfo i t a c) = EInfo i t a (if k \<in> set c then c else c @ [k])"

fun remove_class :: "string \<Rightarrow> einfo \<Rightarrow> einfo" where
  "remove_class k (EInfo i t a c) = EInfo i t a (removeAll k c)"

definition setAttribute_tree :: "nat \<Rightarrow> string \<Rightarrow> string \<Rightarrow> node \<Rightarrow> node" where
  "setAttribute_tree n k v d = map_info (at_node n (set_attr k v)) d"

definition classList_add_tree :: "nat \<Rightarrow> string \<Rightarrow> node \<Rightarrow> node" where
  "classList_add_tree n k d = map_info (at_node n (add_class k)) d"

definition classList_remove_tree :: "nat \<Rightarrow> string \<Rightarrow> node \<Rightarrow> node" where
  "classList_remove_tree n k d = map_info (at_node n (remove_class k)) d"

text \<open>The identities of the child elements of a child list.\<close>

fun node_id :: "node \<Rightarrow> nat option" where
  "node_id (Element i t a c cs) = Some i"
| "node_id (Text s) = None"

fun insert_after_list :: "nat \<Rightarrow> node list \<Rightarrow> node list \<Rightarrow> node list" where
  "insert_after_list n new [] = []"
| "insert_after_list n new (x # xs) =
     (if node_id x = Some n then x # new @ xs else x # insert_after_list n new xs)"

text \<open>Insert nodes right after element \<open>n\<close>, in the child list that holds it.\<close>

fun insert_after :: "nat \<Rightarrow> node list \<Rightarrow> node \<Rightarrow> node" where
  "insert_after n new (Text s) = Text s"
| "insert_after n new (Element i t a c cs) =
     (if Some n \<in> set (map node_id cs) then Element i t a c (insert_after_list n new cs)
      else Element i t a c (map (insert_after n new) cs))"

text \<open>Append nodes to the children of element \<open>n\<close>.\<close>

fun append_children :: "nat \<Rightarrow> node list \<Rightarrow> node \<Rightarrow> node" where
  "append_children n new (Text s) = Text s"
| "append_children n new (Element i t a c cs) =
     (if i = n then Element i t a c (cs @ new)
      else Element i t a c (map (append_children n new) cs))"

text \<open>
  Whether the element has a parent element: it is in the tree and is not the root (the
  root's parent is the document).
\<close>

definition has_parent :: "nat \<Rightarrow> node \<Rightarrow> bool" where
  "has_parent n d = (n \<in> set (map enid (tl (infos d))))"

fun next_in :: "nat \<Rightarrow> node list \<Rightarrow> node option" where
  "next_in n [] = None"
| "next_in n [x] = None"
| "next_in n (x # y # ys) = (if node_id x = Some n then Some y else next_in n (y # ys))"

fun first_some :: "'a option list \<Rightarrow> 'a option" where
  "first_some [] = None"
| "first_some (None # xs) = first_some xs"
| "first_some (Some x # xs) = Some x"

text \<open>\<^verbatim>\<open>element.nextSibling\<close>: the node right after the element in its parent's child list.\<close>

fun nextSibling :: "nat \<Rightarrow> node \<Rightarrow> node option" where
  "nextSibling n (Text s) = None"
| "nextSibling n (Element i t a c cs) =
     (if Some n \<in> set (map node_id cs) then next_in n cs
      else first_some (map (nextSibling n) cs))"

section \<open>The script's state\<close>

datatype readyState = Loading | Interactive | Complete

datatype jsError = TypeError | NoModificationAllowedError

text \<open>
  Functions that the script hands to the browser (event listeners, timer callbacks), by
  name. The closures carry what they captured: \<open>ReadyStateGuard cb\<close> is the wrapper of
  \<^verbatim>\<open>runWhenDOMLoaded\<close>'s legacy branch, \<open>RestoreTooltip el oldText\<close> the timer callback of
  \<^verbatim>\<open>temporarilyChangeTooltip\<close>, \<open>ClipboardDestroy k\<close> the \<^verbatim>\<open>turbolinks:before-visit\<close>
  listener that destroys clipboard instance \<open>k\<close>, \<open>ClipboardSuccess\<close> and
  \<open>ClipboardError\<close> the two handlers given to \<^verbatim>\<open>clipboard.on\<close>.
\<close>

datatype callback =
    FindCodeCells
  | FindInputCells
  | AddCopyButtonToCodeCells
  | InitHiddenCells
  | InitAnchors
  | InitToc
  | ToggleCodeCellVisibility
  | ReadyStateGuard callback
  | RestoreTooltip nat "string option"
  | ClipboardDestroy nat
  | ClipboardSuccess
  | ClipboardError

text \<open>
  The state the script can see or change. The document: \<open>tree\<close>, \<open>nextId\<close> (the identity
  the HTML parser gives the next element it creates), \<open>checked\<close> (the \<^verbatim>\<open>checked\<close> property
  of elements), \<open>readyState\<close>, the listeners registered on the document and on elements.
  The script's globals: \<open>pageElements\<close> and the undeclared \<open>hideLink\<close>. The window: the
  pending timers, the third-party libraries (\<open>clipboardJS\<close>: whether \<^verbatim>\<open>window.ClipboardJS\<close>
  is defined; \<open>anchors\<close>: what \<^verbatim>\<open>anchors.add("main h1, main h2, main h3, main h4")\<close> does
  to the tree, when \<^verbatim>\<open>window.anchors\<close> is defined; \<open>tocbot\<close>: what \<^verbatim>\<open>tocbot.init\<close> with the
  script's options does), and the live clipboard instances. \<open>hasAddEventListener\<close> is the
  feature test \<^verbatim>\<open>document.addEventListener\<close> of \<^verbatim>\<open>runWhenDOMLoaded\<close>.
\<close>

record state =
  tree :: node
  nextId :: nat
  checked :: "nat \<Rightarrow> bool"
  readyState :: readyState
  hasAddEventListener :: bool
  docListeners :: "(string \<times> callback) list"
  legacyListeners :: "(string \<times> callback) list"
  nodeListeners :: "(nat \<times> string \<times> callback) list"
  pageElements :: "string \<rightharpoonup> nat list"
  hideLink :: "nat option"
  timers :: "(callback \<times> nat) list"
  clipboardJS :: bool
  anchors :: "(node \<times> nat \<Rightarrow> node \<times> nat) option"
  tocbot :: "(node \<times> nat \<Rightarrow> node \<times> nat) option"
  clipboards :: "nat list"
  nextClipboard :: nat

text \<open>A call returns normally or throws; either way the mutations made so far stay.\<close>

datatype outcome = Done state | Throws jsError state

fun state_of :: "outcome \<Rightarrow> state" where
  "state_of (Done s) = s"
| "state_of (Throws e s) = s"

fun then_do :: "outcome \<Rightarrow> (state \<Rightarrow> outcome) \<Rightarrow> outcome" where
  "then_do (Done s) f = f s"
| "then_do (Throws e s) f = Throws e s"

text \<open>\<^verbatim>\<open>NodeList.forEach\<close>: an exception in the callback ends the loop.\<close>

fun forEach :: "'a list \<Rightarrow> ('a \<Rightarrow> state \<Rightarrow> outcome) \<Rightarrow> state \<Rightarrow> outcome" where
  "forEach [] f s = Done s"
| "forEach (x # xs) f s = then_do (f x s) (forEach xs f)"

text \<open>String conversion of a value that may be null, as template literals and \<^verbatim>\<open>+\<close> do it.\<close>

fun js_string :: "string option \<Rightarrow> string" where
  "js_string None = ''null''"
| "js_string (Some v) = v"

text \<open>Decimal digits of an index, as a template literal prints a number.\<close>

function string_of_nat :: "nat \<Rightarrow> string" where
  "string_of_nat n =
     (if n < 10 then [char_of (48 + n)]
      else string_of_nat (n div 10) @ [char_of (48 + n mod 10)])"
  by pat_completeness auto

termination
  by (relation "measure (\<lambda>n. n)") auto

declare string_of_nat.simps [simp del]

definition setAttribute :: "nat \<Rightarrow> string \<Rightarrow> string \<Rightarrow> state \<Rightarrow> state" where
  "setAttribute n k v s = s\<lparr>tree := setAttribute_tree n k v (tree s)\<rparr>"

definition classList_add :: "nat \<Rightarrow> string \<Rightarrow> state \<Rightarrow> state" where
  "classList_add n k s = s\<lparr>tree := classList_add_tree n k (tree s)\<rparr>"

definition classList_remove :: "nat \<Rightarrow> string \<Rightarrow> state \<Rightarrow> state" where
  "classList_remove n k s = s\<lparr>tree := classList_remove_tree n k (tree s)\<rparr>"

text \<open>\<^verbatim>\<open>setTimeout(cb, ms)\<close>.\<close>

definition setTimeout :: "callback \<Rightarrow> nat \<Rightarrow> state \<Rightarrow> state" where
  "setTimeout cb ms s = s\<lparr>timers := timers s @ [(cb, ms)]\<rparr>"

text \<open>
  \<^verbatim>\<open>document.addEventListener(type, cb)\<close>: a \<^verbatim>\<open>TypeError\<close> where the method does not exist;
  a listener that is already registered for the type is not added again.
\<close>

definition addEventListener :: "string \<Rightarrow> callback \<Rightarrow> state \<Rightarrow> outcome" where
  "addEventListener ev cb s =
     (if \<not> hasAddEventListener s then Throws TypeError s
      else if (ev, cb) \<in> set (docListeners s) then Done s
      else Done (s\<lparr>docListeners := docListeners s @ [(ev, cb)]\<rparr>))"

text \<open>\<^verbatim>\<open>document.attachEvent(type, cb)\<close> of the legacy branch.\<close>

definition attachEvent :: "string \<Rightarrow> callback \<Rightarrow> state \<Rightarrow> state" where
  "attachEvent ev cb s = s\<lparr>legacyListeners := legacyListeners s @ [(ev, cb)]\<rparr>"

text \<open>\<^verbatim>\<open>element.addEventListener(type, cb)\<close>.\<close>

definition node_addEventListener :: "nat \<Rightarrow> string \<Rightarrow> callback \<Rightarrow> state \<Rightarrow> state" where
  "node_addEventListener n ev cb s =
     (if (n, ev, cb) \<in> set (nodeListeners s) then s
      else s\<lparr>nodeListeners := nodeListeners s @ [(n, ev, cb)]\<rparr>)"

text \<open>
  \<^verbatim>\<open>element.insertAdjacentHTML('afterend', html)\<close>, given the nodes the parser makes of the
  markup: \<^verbatim>\<open>NoModificationAllowedError\<close> when the element has no parent element.
\<close>

definition insertAdjacentHTML_afterend :: "nat \<Rightarrow> node list \<Rightarrow> state \<Rightarrow> outcome" where
  "insertAdjacentHTML_afterend n new s =
     (if has_parent n (tree s) then Done (s\<lparr>tree := insert_after n new (tree s)\<rparr>)
      else Throws NoModificationAllowedError s)"

text \<open>\<^verbatim>\<open>element.insertAdjacentHTML('beforeend', html)\<close>.\<close>

definition insertAdjacentHTML_beforeend :: "nat \<Rightarrow> node list \<Rightarrow> state \<Rightarrow> state" where
  "insertAdjacentHTML_beforeend n new s = s\<lparr>tree := append_children n new (tree s)\<rparr>"

section \<open>The script\<close>

subsection \<open>Selecting the cells\<close>

definition tag_sel :: "string \<Rightarrow> compound" where
  "tag_sel t = Compound (Some t) None []"

definition tag_class :: "string \<Rightarrow> string \<Rightarrow> compound" where
  "tag_class t c = Compound (Some t) None [c]"

definition class_sel :: "string \<Rightarrow> compound" where
  "class_sel c = Compound None None [c]"

definition id_sel :: "string \<Rightarrow> compound" where
  "id_sel i = Compound None (Some i) []"

definition codeCellId :: "nat \<Rightarrow> string" where
  "codeCellId index = ''codecell'' @ string_of_nat index"

definition inputCellId :: "nat \<Rightarrow> string" where
  "inputCellId index = ''inputcell'' @ string_of_nat index"

text \<open>
  \<^verbatim>\<open>div.c-textbook__content > div.highlighter-rouge > div.highlight > pre,
  div.input_area pre, div.text_cell_render div.highlight pre\<close>
\<close>

definition codeCellSelector :: "selector list" where
  "codeCellSelector =
     [Child (Child (Child (Simple (tag_class ''div'' ''c-textbook__content''))
                          (tag_class ''div'' ''highlighter-rouge''))
                   (tag_class ''div'' ''highlight''))
            (tag_sel ''pre''),
      Descendant (Simple (tag_class ''div'' ''input_area'')) (tag_sel ''pre''),
      Descendant (Descendant (Simple (tag_class ''div'' ''text_cell_render''))
                             (tag_class ''div'' ''highlight''))
                 (tag_sel ''pre'')]"

definition inputCellSelector :: "selector list" where
  "inputCellSelector = [Simple (tag_class ''div'' ''jb_cell'')]"

text \<open>
  The callbacks given to \<^verbatim>\<open>forEach\<close> are named after what they do; \<open>assignId\<close> is
  \<^verbatim>\<open>(cell, index) => { const id = cellId(index); cell.setAttribute('id', id) }\<close>.
\<close>

definition assignId :: "(nat \<Rightarrow> string) \<Rightarrow> nat \<times> nat \<Rightarrow> state \<Rightarrow> outcome" where
  "assignId cellId ic s = Done (setAttribute (snd ic) ''id'' (cellId (fst ic)) s)"

definition findCodeCells :: "state \<Rightarrow> outcome" where
  "findCodeCells s =
     (let codeCells = querySelectorAll codeCellSelector (tree s) in
      forEach (enumerate 0 codeCells) (assignId codeCellId)
        (s\<lparr>pageElements := (pageElements s)(''codeCells'' \<mapsto> codeCells)\<rparr>))"

definition findInputCells :: "state \<Rightarrow> outcome" where
  "findInputCells s =
     (let inputCells = querySelectorAll inputCellSelector (tree s) in
      forEach (enumerate 0 inputCells) (assignId inputCellId)
        (s\<lparr>pageElements := (pageElements s)(''inputCells'' \<mapsto> inputCells)\<rparr>))"

subsection \<open>Copy buttons\<close>

text \<open>
  The markup of the templates is given as the nodes the HTML parser makes of it; \<open>k\<close> is
  the identity of the first element created. The interpolated id is taken to hold no
  character that ends the attribute value. White-space text between the tags is kept as
  text nodes, its content shortened to one blank.
\<close>

definition copySVG_path :: string where
  "copySVG_path = ''M433.941 65.941l-51.882-51.882A48 48 0 0 0 348.118 0H176c-26.51 0-48 21.49-48 48v48H48c-26.51 0-48 21.49-48 48v320c0 26.51 21.49 48 48 48h224c26.51 0 48-21.49 48-48v-48h80c26.51 0 48-21.49 48-48V99.882a48 48 0 0 0-14.059-33.941zM266 464H54a6 6 0 0 1-6-6V150a6 6 0 0 1 6-6h74v224c0 26.51 21.49 48 48 48h96v42a6 6 0 0 1-6 6zm128-96H182a6 6 0 0 1-6-6V54a6 6 0 0 1 6-6h106v88c0 13.255 10.745 24 24 24h88v202a6 6 0 0 1-6 6zm6-256h-64V48h9.632c1.591 0 3.117.632 4.243 1.757l48.368 48.368a6 6 0 0 1 1.757 4.243V112z''"

definition copySVG :: "nat \<Rightarrow> node" where
  "copySVG k =
     Element k ''svg''
       [(''aria-labelledby'', ''title''), (''aria-hidden'', ''true''), (''data-prefix'', ''far''),
        (''data-icon'', ''copy''), (''role'', ''img''),
        (''xmlns'', ''http://www.w3.org/2000/svg''), (''viewBox'', ''0 0 448 512'')]
       [''svg-inline--fa'', ''fa-copy'', ''fa-w-14'']
       [Text '' '',
        Element (k + 1) ''title'' [(''id'', ''title''), (''lang'', ''en'')] [] [Text ''Copy code''],
        Text '' '',
        Element (k + 2) ''path'' [(''fill'', ''#777''), (''d'', copySVG_path)] [] [],
        Text '' '']"

definition clipboardButton :: "string \<Rightarrow> nat \<Rightarrow> node" where
  "clipboardButton ident k =
     Element k ''a''
       [(''id'', ''copy-button-'' @ ident), (''data-tooltip'', ''Copy''),
        (''data-clipboard-target'', ''#'' @ ident)]
       [''btn'', ''copybtn'', ''o-tooltip--left'']
       [Text '' '', copySVG (k + 1), Text '' '']"

text \<open>\<^verbatim>\<open>window.getSelection().removeAllRanges()\<close>: the text selection is not part of the state.\<close>

definition clearSelection :: "state \<Rightarrow> state" where
  "clearSelection s = s"

definition temporarilyChangeTooltip :: "nat \<Rightarrow> string \<Rightarrow> state \<Rightarrow> state" where
  "temporarilyChangeTooltip el newText s =
     (let oldText = getAttribute el ''data-tooltip'' (tree s) in
      setTimeout (RestoreTooltip el oldText) 2000 (setAttribute el ''data-tooltip'' newText s))"

text \<open>The timer callback \<^verbatim>\<open>() => el.setAttribute('data-tooltip', oldText)\<close>.\<close>

definition restoreTooltip :: "nat \<Rightarrow> string option \<Rightarrow> state \<Rightarrow> state" where
  "restoreTooltip el oldText s = setAttribute el ''data-tooltip'' (js_string oldText) s"

text \<open>The callback of the loop over the code cells.\<close>

definition copyButtonFor :: "nat \<Rightarrow> state \<Rightarrow> outcome" where
  "copyButtonFor codeCell s =
     (let ident = js_string (getAttribute codeCell ''id'' (tree s)) in
      if getElementById (''copy-button'' @ ident) (tree s) = None
      then insertAdjacentHTML_afterend codeCell
             [clipboardButton ident (nextId s)] (s\<lparr>nextId := nextId s + 4\<rparr>)
      else Done s)"

text \<open>
  \<^verbatim>\<open>new ClipboardJS('.copybtn')\<close> with its two handlers, and the listener that destroys the
  instance before the next visit.
\<close>

definition newClipboard :: "state \<Rightarrow> outcome" where
  "newClipboard s =
     addEventListener ''turbolinks:before-visit'' (ClipboardDestroy (nextClipboard s))
       (s\<lparr>clipboards := clipboards s @ [nextClipboard s], nextClipboard := nextClipboard s + 1\<rparr>)"

definition addCopyButtonToCodeCells :: "state \<Rightarrow> outcome" where
  "addCopyButtonToCodeCells s =
     (if \<not> clipboardJS s then Done (setTimeout AddCopyButtonToCodeCells 250 s)
      else
        (case pageElements s ''codeCells'' of
           None \<Rightarrow> Throws TypeError s
         | Some codeCells \<Rightarrow> then_do (forEach codeCells copyButtonFor s) newClipboard))"

text \<open>\<^verbatim>\<open>clipboard.destroy()\<close>.\<close>

definition clipboardDestroy :: "nat \<Rightarrow> state \<Rightarrow> state" where
  "clipboardDestroy k s = s\<lparr>clipboards := removeAll k (clipboards s)\<rparr>"

subsection \<open>Hide buttons\<close>

text \<open>
  The selector \<^verbatim>\<open>#${id} div.highlight\<close> is taken as the descendant selector it is for an
  id that is a CSS identifier.
\<close>

definition setCodeCellVisibility :: "nat \<Rightarrow> string \<Rightarrow> state \<Rightarrow> outcome" where
  "setCodeCellVisibility inputField kind s =
     (let ident = js_string (getAttribute inputField ''data-id'' (tree s));
          codeCell = querySelector
            [Descendant (Simple (id_sel ident)) (tag_class ''div'' ''highlight'')] (tree s)
      in if kind = ''visible'' then
           (case codeCell of
              None \<Rightarrow> Throws TypeError s
            | Some c \<Rightarrow>
                Done ((classList_remove c ''hidden'' s)\<lparr>checked := (checked s)(inputField := True)\<rparr>))
         else
           (case codeCell of
              None \<Rightarrow> Throws TypeError s
            | Some c \<Rightarrow>
                Done ((classList_add c ''hidden'' s)\<lparr>checked := (checked s)(inputField := False)\<rparr>)))"

definition previousElementSibling :: "nat \<Rightarrow> node \<Rightarrow> nat option" where
  "previousElementSibling n d =
     (case position_of n d of
        Some ((e, q # qs) # up) \<Rightarrow> Some (enid q)
      | _ \<Rightarrow> None)"

definition parentElement :: "nat \<Rightarrow> node \<Rightarrow> nat option" where
  "parentElement n d =
     (case position_of n d of
        Some (l # (e, ps) # up) \<Rightarrow> Some (enid e)
      | _ \<Rightarrow> None)"

definition tagName_of :: "nat \<Rightarrow> node \<Rightarrow> string option" where
  "tagName_of n d = map_option etag (lookup n d)"

text \<open>The click listener; \<open>target\<close> is \<^verbatim>\<open>event.target\<close>, null when it is no element.\<close>

definition toggleCodeCellVisibility :: "nat option \<Rightarrow> state \<Rightarrow> outcome" where
  "toggleCodeCellVisibility target s =
     (case target of
        None \<Rightarrow> Throws TypeError s
      | Some t \<Rightarrow>
          (let inputField =
                 (if tagName_of t (tree s) = Some ''label''
                  then Some (previousElementSibling t (tree s))
                  else (case parentElement t (tree s) of
                          None \<Rightarrow> None
                        | Some q \<Rightarrow> Some (previousElementSibling q (tree s))))
           in case inputField of
                None \<Rightarrow> Throws TypeError s
              | Some None \<Rightarrow> Throws TypeError s
              | Some (Some i) \<Rightarrow>
                  if checked s i then setCodeCellVisibility i ''visible'' s
                  else setCodeCellVisibility i ''hidden'' s))"

definition hideCodeButton :: "string \<Rightarrow> nat \<Rightarrow> node list" where
  "hideCodeButton ident k =
     [Element k ''input''
        [(''type'', ''checkbox''), (''id'', ''hidebtn'' @ ident), (''data-id'', ident)]
        [''hidebtn''] [],
      Element (k + 1) ''label'' [(''title'', ''Toggle cell''), (''for'', ''hidebtn'' @ ident)]
        [''plusminus'']
        [Element (k + 2) ''span'' [] [''pm_h''] [], Element (k + 3) ''span'' [] [''pm_v''] []]]"

definition hideButtonGuard :: "selector list" where
  "hideButtonGuard = [Descendant (Simple (tag_class ''div'' ''tag_hide_input'')) (tag_sel ''input'')]"

text \<open>\<^verbatim>\<open>#${id} div.inner_cell + input + label\<close>\<close>

definition hideLinkSelector :: "string \<Rightarrow> selector list" where
  "hideLinkSelector ident =
     [Adjacent (Adjacent (Descendant (Simple (id_sel ident)) (tag_class ''div'' ''inner_cell''))
                         (tag_sel ''input''))
               (tag_sel ''label'')]"

text \<open>The callback of the loop over the input cells.\<close>

definition hideButtonFor :: "nat \<Rightarrow> state \<Rightarrow> outcome" where
  "hideButtonFor inputCell s =
     (if \<not> classList_contains inputCell ''tag_hide_input'' (tree s) then Done s
      else
        (let ident = js_string (getAttribute inputCell ''id'' (tree s)) in
         case querySelector_within inputCell [Simple (tag_class ''div'' ''input'')] (tree s) of
           None \<Rightarrow> Throws TypeError s
         | Some target \<Rightarrow>
             (let s1 = insertAdjacentHTML_beforeend target (hideCodeButton ident (nextId s))
                         (s\<lparr>nextId := nextId s + 4, checked := (checked s)(nextId s := False)\<rparr>);
                  s2 = s1\<lparr>hideLink := querySelector (hideLinkSelector ident) (tree s1)\<rparr>
              in case hideLink s2 of
                   None \<Rightarrow> Throws TypeError s2
                 | Some l \<Rightarrow> Done (node_addEventListener l ''click'' ToggleCodeCellVisibility s2))))"

definition addHideButton :: "state \<Rightarrow> outcome" where
  "addHideButton s =
     (if querySelector hideButtonGuard (tree s) \<noteq> None then Done s
      else
        (case pageElements s ''inputCells'' of
           None \<Rightarrow> Throws TypeError s
         | Some inputCells \<Rightarrow> forEach inputCells hideButtonFor s))"

text \<open>The callback of the loop of \<^verbatim>\<open>initHiddenCells\<close>.\<close>

definition hideItem :: "nat \<Rightarrow> state \<Rightarrow> outcome" where
  "hideItem item s =
     then_do (setCodeCellVisibility item ''hidden'' s)
       (\<lambda>s'. Done (s'\<lparr>checked := (checked s')(item := True)\<rparr>))"

definition initHiddenCells :: "state \<Rightarrow> outcome" where
  "initHiddenCells s =
     then_do (addHideButton s)
       (\<lambda>s'. forEach (querySelectorAll hideButtonGuard (tree s')) hideItem s')"

subsection \<open>Anchors and table of contents\<close>

text \<open>\<^verbatim>\<open>it => it.dataset['turbolinks'] = false\<close>\<close>

definition disableTurbolinks :: "nat \<Rightarrow> state \<Rightarrow> outcome" where
  "disableTurbolinks it s = Done (setAttribute it ''data-turbolinks'' ''false'' s)"

text \<open>A third-party call that changes the page.\<close>

definition libraryCall :: "(node \<times> nat \<Rightarrow> node \<times> nat) \<Rightarrow> state \<Rightarrow> state" where
  "libraryCall f s = s\<lparr>tree := fst (f (tree s, nextId s)), nextId := snd (f (tree s, nextId s))\<rparr>"

definition initAnchors :: "state \<Rightarrow> outcome" where
  "initAnchors s =
     (case anchors s of
        None \<Rightarrow> Done (setTimeout InitAnchors 250 s)
      | Some add \<Rightarrow>
          (let s1 = libraryCall add s
           in forEach (querySelectorAll [Simple (class_sel ''anchorjs-link'')] (tree s1))
                disableTurbolinks s1))"

definition initToc :: "state \<Rightarrow> outcome" where
  "initToc s =
     (case tocbot s of
        None \<Rightarrow> Done (setTimeout InitToc 250 s)
      | Some init \<Rightarrow>
          then_do
            (if querySelectorAll [Simple (class_sel ''tag_full_width''),
                                  Simple (class_sel ''tag_popout'')] (tree s) = []
             then (case querySelector [Simple (tag_class ''nav'' ''onthispage'')] (tree s) of
                     None \<Rightarrow> Throws TypeError s
                   | Some nav \<Rightarrow> Done (classList_add nav ''no_sidebar_content'' s))
             else Done s)
            (\<lambda>s0.
               let s1 = libraryCall init s0
               in forEach (querySelectorAll
                             [Descendant (Simple (class_sel ''toc-list-item'')) (tag_sel ''a'')]
                             (tree s1))
                    disableTurbolinks s1))"

subsection \<open>Calling back\<close>

text \<open>
  What the browser runs when it calls one of the script's functions; \<open>target\<close> is the
  element of the event (\<^verbatim>\<open>event.target\<close>, \<^verbatim>\<open>event.trigger\<close>), null when there is none.
\<close>

fun call :: "callback \<Rightarrow> nat option \<Rightarrow> state \<Rightarrow> outcome" where
  "call FindCodeCells target s = findCodeCells s"
| "call FindInputCells target s = findInputCells s"
| "call AddCopyButtonToCodeCells target s = addCopyButtonToCodeCells s"
| "call InitHiddenCells target s = initHiddenCells s"
| "call InitAnchors target s = initAnchors s"
| "call InitToc target s = initToc s"
| "call ToggleCodeCellVisibility target s = toggleCodeCellVisibility target s"
| "call (ReadyStateGuard cb) target s =
     (if readyState s = Complete then call cb None s else Done s)"
| "call (RestoreTooltip el oldText) target s = Done (restoreTooltip el oldText s)"
| "call (ClipboardDestroy k) target s = Done (clipboardDestroy k s)"
| "call ClipboardSuccess target s =
     (case target of
        None \<Rightarrow> Throws TypeError (clearSelection s)
      | Some el \<Rightarrow> Done (temporarilyChangeTooltip el ''Copied!'' (clearSelection s)))"
| "call ClipboardError target s =
     (case target of
        None \<Rightarrow> Throws TypeError s
      | Some el \<Rightarrow> Done (temporarilyChangeTooltip el ''Failed to copy'' s))"

definition runWhenDOMLoaded :: "callback \<Rightarrow> state \<Rightarrow> outcome" where
  "runWhenDOMLoaded cb s =
     (if readyState s \<noteq> Loading then call cb None s
      else if hasAddEventListener s then addEventListener ''DOMContentLoaded'' cb s
      else Done (attachEvent ''onreadystatechange'' (ReadyStateGuard cb) s))"

definition initFunction :: "callback \<Rightarrow> state \<Rightarrow> outcome" where
  "initFunction myfunc s =
     then_do (runWhenDOMLoaded myfunc s) (addEventListener ''turbolinks:load'' myfunc)"

text \<open>The script from top to bottom; an exception ends it.\<close>

definition loadScript :: "state \<Rightarrow> outcome" where
  "loadScript s =
     then_do (initFunction FindCodeCells (s\<lparr>pageElements := Map.empty\<rparr>)) (\<lambda>s.
     then_do (initFunction FindInputCells s) (\<lambda>s.
     then_do (initFunction AddCopyButtonToCodeCells s) (\<lambda>s.
     then_do (initFunction InitHiddenCells s) (\<lambda>s.
     then_do (initFunction InitAnchors s) (\<lambda>s.
     initFunction InitToc s)))))"

subsection \<open>The browser's side\<close>




text \<open>A pending timer fires: it leaves the queue and its callback runs.\<close>

definition fireTimer :: "nat \<Rightarrow> state \<Rightarrow> state" where
  "fireTimer i s =
     (if i < length (timers s)
      then state_of (call (fst (timers s ! i)) None
                       (s\<lparr>timers := take i (timers s) @ drop (Suc i) (timers s)\<rparr>))
      else s)"

section \<open>A sample page\<close>

text \<open>
  A page as the site generator renders a notebook: each cell is a \<^verbatim>\<open>div.jb_cell\<close> that holds
  the prompt and the highlighted source. The first cell is tagged \<^verbatim>\<open>tag_hide_input\<close>.
\<close>

definition sampleCell :: "nat \<Rightarrow> string list \<Rightarrow> node" where
  "sampleCell k cl =
     Element k ''div'' [] (''jb_cell'' # cl)
       [Element (k + 1) ''div'' [] [''cell'']
          [Element (k + 2) ''div'' [] [''input'']
             [Element (k + 3) ''div'' [] [''prompt''] [],
              Element (k + 4) ''div'' [] [''inner_cell'']
                [Element (k + 5) ''div'' [] [''input_area'']
                   [Element (k + 6) ''div'' [] [''highlight'']
                      [Element (k + 7) ''pre'' [] [] [Text ''x = 1'']]]]]]]"

definition samplePage :: node where
  "samplePage =
     Element 0 ''html'' [] []
       [Element 1 ''body'' [] []
          [sampleCell 2 [''tag_hide_input''], Text '' '', sampleCell 10 []]]"

text \<open>The page is loaded, ClipboardJS too; anchors and tocbot are not yet.\<close>

definition sampleState :: state where
  "sampleState =
     \<lparr>tree = samplePage, nextId = 18, checked = (\<lambda>n. False), readyState = Complete,
      hasAddEventListener = True, docListeners = [], legacyListeners = [],
      nodeListeners = [], pageElements = Map.empty, hideLink = None, timers = [],
      clipboardJS = True, anchors = None, tocbot = None, clipboards = [],
      nextClipboard = 0\<rparr>"

section \<open>Observing the script\<close>






text \<open>A code cell with its copy button.\<close>

definition buttonPage :: node where
  "buttonPage =
     Element 0 ''html'' [] []
       [Element 1 ''body'' [] []
          [Element 2 ''div'' [] [''input_area'']
             [Element 3 ''pre'' [(''id'', ''codecell0'')] [] [Text ''x = 1''],
              clipboardButton ''codecell0'' 4]]]"

definition buttonState :: state where
  "buttonState = sampleState\<lparr>tree := buttonPage, nextId := 8\<rparr>"

text \<open>No two elements of the tree have the same identity.\<close>

definition wf_tree :: "node \<Rightarrow> bool" where
  "wf_tree d = distinct (map enid (infos d))"

text \<open>The \<open>i\<close>-th cell of the collection carries the id \<^verbatim>\<open>cellId(i)\<close>.\<close>

definition assigned :: "(nat \<Rightarrow> string) \<Rightarrow> nat list \<Rightarrow> node \<Rightarrow> bool" where
  "assigned cellId cells d =
     (\<forall>i < length cells. getAttribute (cells ! i) ''id'' d = Some (cellId i))"

text \<open>The identities of the elements of some nodes.\<close>

definition ids_of :: "node list \<Rightarrow> nat set" where
  "ids_of ns = enid ` set (concat (map infos ns))"

text \<open>What a selector sees of the next sibling, when that is an element.\<close>

definition nextSibling_info :: "nat \<Rightarrow> node \<Rightarrow> einfo option" where
  "nextSibling_info n d = (case nextSibling n d of None \<Rightarrow> None | Some x \<Rightarrow> info x)"

text \<open>Every element of the tree was created before \<open>nextId\<close>.\<close>

definition fresh :: "state \<Rightarrow> bool" where
  "fresh s = list_all (\<lambda>e. enid e < nextId s) (infos (tree s))"

text \<open>A copy button that targets the element with the given id.\<close>

definition is_copy_button :: "string \<Rightarrow> einfo \<Rightarrow> bool" where
  "is_copy_button ident e =
     (etag e = ''a'' \<and> ''copybtn'' \<in> set (eclasses e) \<and>
      map_of (eattrs e) ''data-clipboard-target'' = Some (''#'' @ ident))"

text \<open>
  The state in which \<^verbatim>\<open>findCodeCells\<close> leaves a page that has no element with the id
  \<^verbatim>\<open>copy-button\<close> followed by the id of a code cell: ClipboardJS is defined, the stored code
  cells are distinct elements of the page below the root, the \<open>i\<close>-th carries the id
  \<^verbatim>\<open>codecell<i>\<close>, and the existence check of \<^verbatim>\<open>addCopyButtonToCodeCells\<close> finds nothing.
\<close>

definition codeCells_ready :: "nat list \<Rightarrow> state \<Rightarrow> bool" where
  "codeCells_ready cells s =
     (clipboardJS s \<and> fresh s \<and> pageElements s ''codeCells'' = Some cells \<and> distinct cells \<and>
      list_all (\<lambda>c. has_parent c (tree s)) cells \<and> assigned codeCellId cells (tree s) \<and>
      (\<forall>i < length cells. getElementById (''copy-button'' @ codeCellId i) (tree s) = None))"

text \<open>A page with one code cell, as \<^verbatim>\<open>findCodeCells\<close> leaves it.\<close>

definition codePage :: node where
  "codePage =
     Element 0 ''html'' [] []
       [Element 1 ''body'' [] []
          [Element 2 ''div'' [] [''input_area'']
             [Element 3 ''pre'' [(''id'', ''codecell0'')] [] [Text ''x = 1'']]]]"

definition codeState :: state where
  "codeState = sampleState\<lparr>tree := codePage, nextId := 4,
                 pageElements := [''codeCells'' \<mapsto> [3]]\<rparr>"

text \<open>The same page with an element that carries the id the existence check looks up.\<close>

definition foreignPage :: node where
  "foreignPage =
     Element 0 ''html'' [] []
       [Element 1 ''body'' [] []
          [Element 2 ''div'' [] [''input_area'']
             [Element 3 ''pre'' [(''id'', ''codecell0'')] [] [Text ''x = 1'']],
           Element 4 ''div'' [(''id'', ''copy-buttoncodecell0'')] [] []]]"

definition foreignState :: state where
  "foreignState = sampleState\<lparr>tree := foreignPage, nextId := 5,
                    pageElements := [''codeCells'' \<mapsto> [3]]\<rparr>"

text \<open>
  Two states with the same document, the same libraries, the same \<open>pageElements\<close>. What
  they may differ in: the pending timers and the global \<open>hideLink\<close>.
\<close>

definition same_document :: "state \<Rightarrow> state \<Rightarrow> bool" where
  "same_document s s' =
     (tree s = tree s' \<and> nextId s = nextId s' \<and> checked s = checked s' \<and>
      readyState s = readyState s' \<and> hasAddEventListener s = hasAddEventListener s' \<and>
      docListeners s = docListeners s' \<and> legacyListeners s = legacyListeners s' \<and>
      nodeListeners s = nodeListeners s')"

definition same_libraries :: "state \<Rightarrow> state \<Rightarrow> bool" where
  "same_libraries s s' =
     (clipboardJS s = clipboardJS s' \<and> anchors s = anchors s' \<and> tocbot s = tocbot s' \<and>
      clipboards s = clipboards s' \<and> nextClipboard s = nextClipboard s')"

definition same_page :: "state \<Rightarrow> state \<Rightarrow> bool" where
  "same_page s s' = (same_document s s' \<and> same_libraries s s' \<and> pageElements s = pageElements s')"

fun same_outcome :: "outcome \<Rightarrow> outcome \<Rightarrow> bool" where
  "same_outcome (Done u) (Done u') = same_page u u'"
| "same_outcome (Throws e u) (Throws e' u') = (e = e' \<and> same_page u u')"
| "same_outcome (Done u) (Throws e' u') = False"
| "same_outcome (Throws e u) (Done u') = False"

text \<open>The timers a call has scheduled.\<close>

definition new_timers :: "state \<Rightarrow> outcome \<Rightarrow> (callback \<times> nat) list" where
  "new_timers s r = drop (length (timers s)) (timers (state_of r))"

text \<open>The six routines the script registers with \<^verbatim>\<open>initFunction\<close>.\<close>

definition routines :: "(state \<Rightarrow> outcome) list" where
  "routines = [findCodeCells, findInputCells, addCopyButtonToCodeCells, initHiddenCells,
               initAnchors, initToc]"

text \<open>The same document, with an empty collection in \<open>pageElements\<close>.\<close>

definition noCellsState :: state where
  "noCellsState = codeState\<lparr>pageElements := [''codeCells'' \<mapsto> []]\<rparr>"

text \<open>The same page later: a timer is pending and \<open>hideLink\<close> is set.\<close>

definition laterState :: state where
  "laterState = codeState\<lparr>hideLink := Some 3, timers := [(InitToc, 250)]\<rparr>"

text \<open>A change of the elements, seen in a position.\<close>

fun map_level :: "(einfo \<Rightarrow> einfo) \<Rightarrow> level \<Rightarrow> level" where
  "map_level g (e, ps) = (g e, map g ps)"

text \<open>A change of the elements that only adds the class \<open>k\<close> to some of them.\<close>

definition class_only :: "string \<Rightarrow> (einfo \<Rightarrow> einfo) \<Rightarrow> bool" where
  "class_only k f =
     (\<forall>e. enid (f e) = enid e \<and> etag (f e) = etag e \<and> eattrs (f e) = eattrs e \<and>
          set (eclasses e) \<subseteq> set (eclasses (f e)) \<and>
          set (eclasses (f e)) \<subseteq> insert k (set (eclasses e)))"

text \<open>The classes a selector asks for.\<close>

fun selector_classes :: "selector \<Rightarrow> string set" where
  "selector_classes (Simple c) = set (cclasses c)"
| "selector_classes (Descendant sel c) = selector_classes sel \<union> set (cclasses c)"
| "selector_classes (Child sel c) = selector_classes sel \<union> set (cclasses c)"
| "selector_classes (Adjacent sel c) = selector_classes sel \<union> set (cclasses c)"

definition is_hide_button :: "einfo \<Rightarrow> bool" where
  "is_hide_button e = (etag e = ''input'' \<and> ''hidebtn'' \<in> set (eclasses e))"

definition hide_buttons :: "node \<Rightarrow> nat" where
  "hide_buttons d = length (filter is_hide_button (infos d))"

definition guarded :: "node \<Rightarrow> bool" where
  "guarded d = (querySelector hideButtonGuard d \<noteq> None)"

definition hide_input :: "string \<Rightarrow> nat \<Rightarrow> einfo" where
  "hide_input ident k =
     EInfo k ''input'' [(''type'', ''checkbox''), (''id'', ''hidebtn'' @ ident), (''data-id'', ident)]
       [''hidebtn'']"

definition hide_label :: "string \<Rightarrow> nat \<Rightarrow> einfo" where
  "hide_label ident k =
     EInfo (k + 1) ''label'' [(''title'', ''Toggle cell''), (''for'', ''hidebtn'' @ ident)]
       [''plusminus'']"

definition tagged :: "node \<Rightarrow> nat \<Rightarrow> bool" where
  "tagged d c = classList_contains c ''tag_hide_input'' d"

definition is_div :: "node \<Rightarrow> nat \<Rightarrow> bool" where
  "is_div d c = (tagName_of c d = Some ''div'')"

text \<open>Repeated runs, whether they return or throw.\<close>

fun repeat_initHiddenCells :: "nat \<Rightarrow> state \<Rightarrow> state" where
  "repeat_initHiddenCells 0 s = s"
| "repeat_initHiddenCells (Suc n) s = repeat_initHiddenCells n (state_of (initHiddenCells s))"

text \<open>
  The input cells as \<^verbatim>\<open>findInputCells\<close> stores them: \<^verbatim>\<open>div\<close> elements of the page, in a
  document whose elements have distinct identities, all created before \<open>nextId\<close>.
\<close>

definition inputCells_stored :: "nat list \<Rightarrow> state \<Rightarrow> bool" where
  "inputCells_stored cells s =
     (wf_tree (tree s) \<and> fresh s \<and> pageElements s ''inputCells'' = Some cells \<and>
      list_all (is_div (tree s)) cells)"

definition keeps_cells :: "state \<Rightarrow> state \<Rightarrow> bool" where
  "keeps_cells u u' =
     ((wf_tree (tree u) \<longrightarrow> wf_tree (tree u')) \<and> (fresh u \<longrightarrow> fresh u') \<and>
      hide_buttons (tree u') = hide_buttons (tree u) \<and>
      guarded (tree u') = guarded (tree u) \<and> pageElements u' = pageElements u \<and>
      (\<forall>c. is_div (tree u') c = is_div (tree u) c) \<and>
      (\<forall>c. tagged (tree u') c = tagged (tree u) c))"

text \<open>The sample page with its input cells found, and then with its tagged cell hidden.\<close>

definition cellsState :: state where
  "cellsState = state_of (findInputCells sampleState)"

definition hiddenState :: state where
  "hiddenState = state_of (initHiddenCells cellsState)"













text \<open>No stored cell lies inside another stored cell.\<close>

definition no_nesting :: "nat list \<Rightarrow> node \<Rightarrow> bool" where
  "no_nesting cells d =
     (\<forall>p \<in> set (positions d). enid (self p) \<in> set cells \<longrightarrow>
        (\<forall>a \<in> set (ancestors p). enid a \<notin> set cells))"

text \<open>The number of hide buttons below an element.\<close>

definition buttons_below :: "nat \<Rightarrow> node \<Rightarrow> nat" where
  "buttons_below c d =
     length (filter (\<lambda>p. is_hide_button (self p) \<and> c \<in> set (map enid (ancestors p)))
               (positions d))"

text \<open>A tagged cell that holds another tagged cell, after \<^verbatim>\<open>findInputCells\<close>.\<close>

definition nestedPage :: node where
  "nestedPage =
     Element 0 ''html'' [] []
       [Element 1 ''body'' [] []
          [Element 2 ''div'' [] [''jb_cell'', ''tag_hide_input'']
             [sampleCell 3 [''tag_hide_input'']]]]"

definition nestedState :: state where
  "nestedState = state_of (findInputCells (sampleState\<lparr>tree := nestedPage, nextId := 11\<rparr>))"













section \<open>Loops and frames\<close>

lemma forEach_preserves:
  assumes "\<And>x u. x \<in> set xs \<Longrightarrow> P u \<Longrightarrow> P (state_of (f x u))" and "P s"
  shows "P (state_of (forEach xs f s))"
  using assms
proof (induction xs arbitrary: s)
  case Nil
  then show ?case by simp
next
  case (Cons x xs)
  show ?case
  proof (cases "f x s")
    case (Done u)
    have "P u" using Cons.prems(1)[of x s] Cons.prems(2) Done by simp
    then have "P (state_of (forEach xs f u))"
      using Cons.IH Cons.prems(1) by simp
    then show ?thesis using Done by simp
  next
    case (Throws e u)
    have "P u" using Cons.prems(1)[of x s] Cons.prems(2) Throws by simp
    then show ?thesis using Throws by simp
  qed
qed

lemma state_of_then_do:
  "state_of (then_do r f) = (case r of Done s \<Rightarrow> state_of (f s) | Throws e s \<Rightarrow> s)"
  by (cases r) simp_all

lemmas prim_defs = setAttribute_def classList_add_def classList_remove_def setTimeout_def
  addEventListener_def attachEvent_def node_addEventListener_def insertAdjacentHTML_afterend_def
  insertAdjacentHTML_beforeend_def libraryCall_def

lemma copyButtonFor_timers: "timers (state_of (copyButtonFor c s)) = timers s"
  by (simp add: copyButtonFor_def Let_def prim_defs)

lemma disableTurbolinks_timers: "timers (state_of (disableTurbolinks c s)) = timers s"
  by (simp add: disableTurbolinks_def prim_defs)

lemma copy_loop_timers: "timers (state_of (forEach cells copyButtonFor s)) = timers s"
  by (rule forEach_preserves[where P = "\<lambda>u. timers u = timers s"])
     (simp_all add: copyButtonFor_timers)

lemma disable_loop_timers: "timers (state_of (forEach cells disableTurbolinks s)) = timers s"
  by (rule forEach_preserves[where P = "\<lambda>u. timers u = timers s"])
     (simp_all add: disableTurbolinks_timers)

lemma newClipboard_timers: "timers (state_of (newClipboard s)) = timers s"
  by (simp add: newClipboard_def prim_defs)

lemma addCopy_work_timers:
  assumes "clipboardJS s"
  shows "timers (state_of (addCopyButtonToCodeCells s)) = timers s"
proof (cases "pageElements s ''codeCells''")
  case None
  then show ?thesis using assms by (simp add: addCopyButtonToCodeCells_def)
next
  case (Some cells)
  show ?thesis
    using assms Some copy_loop_timers[of cells s]
    by (cases "forEach cells copyButtonFor s")
       (simp_all add: addCopyButtonToCodeCells_def newClipboard_timers)
qed

lemma initAnchors_work_timers:
  assumes "anchors s = Some add"
  shows "timers (state_of (initAnchors s)) = timers s"
  using assms disable_loop_timers[of _ "libraryCall add s"]
  by (simp add: initAnchors_def Let_def libraryCall_def)

lemma libraryCall_timers: "timers (libraryCall f s) = timers s"
  by (simp add: libraryCall_def)

lemma initToc_work_timers:
  assumes "tocbot s = Some init"
  shows "timers (state_of (initToc s)) = timers s"
proof -
  let ?rest = "\<lambda>s0. let s1 = libraryCall init s0
               in forEach (querySelectorAll
                             [Descendant (Simple (class_sel ''toc-list-item'')) (tag_sel ''a'')]
                             (tree s1))
                    disableTurbolinks s1"
  have rest: "timers (state_of (?rest u)) = timers u" for u
    by (simp add: Let_def disable_loop_timers libraryCall_timers)
  let ?first = "if querySelectorAll [Simple (class_sel ''tag_full_width''),
                                  Simple (class_sel ''tag_popout'')] (tree s) = []
             then (case querySelector [Simple (tag_class ''nav'' ''onthispage'')] (tree s) of
                     None \<Rightarrow> Throws TypeError s
                   | Some nav \<Rightarrow> Done (classList_add nav ''no_sidebar_content'' s))
             else Done s"
  have first: "timers (state_of ?first) = timers s"
    by (simp add: classList_add_def split: option.splits)
  have "initToc s = then_do ?first ?rest"
    using assms by (simp add: initToc_def)
  then show ?thesis
    using first rest by (cases ?first) simp_all
qed





section \<open>Waiting for the libraries\<close>

lemma forEach_frame:
  assumes "\<And>x u. x \<in> set xs \<Longrightarrow> p (state_of (f x u)) = p u"
  shows "p (state_of (forEach xs f s)) = p s"
  by (rule forEach_preserves[where P = "\<lambda>u. p u = p s"]) (simp_all add: assms)

lemma assignId_frame:
  assumes "\<And>u t. p (u\<lparr>tree := t\<rparr>) = p u"
  shows "p (state_of (assignId f ic s)) = p s"
  by (simp add: assignId_def setAttribute_def assms)


lemma copyButtonFor_frame:
  assumes "\<And>u t. p (u\<lparr>tree := t\<rparr>) = p u" and "\<And>u k. p (u\<lparr>nextId := k\<rparr>) = p u"
  shows "p (state_of (copyButtonFor n s)) = p s"
  by (simp add: copyButtonFor_def Let_def insertAdjacentHTML_afterend_def assms)

lemma setCodeCellVisibility_frame:
  assumes "\<And>u t. p (u\<lparr>tree := t\<rparr>) = p u" and "\<And>u c. p (u\<lparr>checked := c\<rparr>) = p u"
  shows "p (state_of (setCodeCellVisibility n kind s)) = p s"
  by (simp add: setCodeCellVisibility_def Let_def classList_add_def classList_remove_def assms
           split: option.splits)

lemma hideItem_frame:
  assumes "\<And>u t. p (u\<lparr>tree := t\<rparr>) = p u" and "\<And>u c. p (u\<lparr>checked := c\<rparr>) = p u"
  shows "p (state_of (hideItem n s)) = p s"
  using setCodeCellVisibility_frame[of p n "''hidden''" s, OF assms]
  by (cases "setCodeCellVisibility n ''hidden'' s") (simp_all add: hideItem_def assms)

lemma hideButtonFor_frame:
  assumes "\<And>u t. p (u\<lparr>tree := t\<rparr>) = p u" and "\<And>u k. p (u\<lparr>nextId := k\<rparr>) = p u"
    and "\<And>u c. p (u\<lparr>checked := c\<rparr>) = p u" and "\<And>u h. p (u\<lparr>hideLink := h\<rparr>) = p u"
    and "\<And>u l. p (u\<lparr>nodeListeners := l\<rparr>) = p u"
  shows "p (state_of (hideButtonFor n s)) = p s"
  by (simp add: hideButtonFor_def Let_def insertAdjacentHTML_beforeend_def
        node_addEventListener_def assms split: option.splits)


lemma findCodeCells_frame:
  assumes "\<And>u t. p (u\<lparr>tree := t\<rparr>) = p u" and "\<And>u m. p (u\<lparr>pageElements := m\<rparr>) = p u"
  shows "p (state_of (findCodeCells s)) = p s"
  by (simp add: findCodeCells_def Let_def forEach_frame assignId_frame assms)

lemma findInputCells_frame:
  assumes "\<And>u t. p (u\<lparr>tree := t\<rparr>) = p u" and "\<And>u m. p (u\<lparr>pageElements := m\<rparr>) = p u"
  shows "p (state_of (findInputCells s)) = p s"
  by (simp add: findInputCells_def Let_def forEach_frame assignId_frame assms)

lemma addHideButton_frame:
  assumes "\<And>u t. p (u\<lparr>tree := t\<rparr>) = p u" and "\<And>u k. p (u\<lparr>nextId := k\<rparr>) = p u"
    and "\<And>u c. p (u\<lparr>checked := c\<rparr>) = p u" and "\<And>u h. p (u\<lparr>hideLink := h\<rparr>) = p u"
    and "\<And>u l. p (u\<lparr>nodeListeners := l\<rparr>) = p u"
  shows "p (state_of (addHideButton s)) = p s"
  by (simp add: addHideButton_def forEach_frame hideButtonFor_frame[OF assms] split: option.splits)

lemma initHiddenCells_frame:
  assumes "\<And>u t. p (u\<lparr>tree := t\<rparr>) = p u" and "\<And>u k. p (u\<lparr>nextId := k\<rparr>) = p u"
    and "\<And>u c. p (u\<lparr>checked := c\<rparr>) = p u" and "\<And>u h. p (u\<lparr>hideLink := h\<rparr>) = p u"
    and "\<And>u l. p (u\<lparr>nodeListeners := l\<rparr>) = p u"
  shows "p (state_of (initHiddenCells s)) = p s"
  using addHideButton_frame[of p s, OF assms]
  by (cases "addHideButton s")
     (simp_all add: initHiddenCells_def forEach_frame hideItem_frame[OF assms(1,3)])



lemma addCopy_frame:
  assumes "\<And>u t. p (u\<lparr>tree := t\<rparr>) = p u" and "\<And>u k. p (u\<lparr>nextId := k\<rparr>) = p u"
    and "\<And>u l. p (u\<lparr>timers := l\<rparr>) = p u" and "\<And>u l. p (u\<lparr>docListeners := l\<rparr>) = p u"
    and "\<And>u l. p (u\<lparr>clipboards := l\<rparr>) = p u" and "\<And>u l. p (u\<lparr>nextClipboard := l\<rparr>) = p u"
  shows "p (state_of (addCopyButtonToCodeCells s)) = p s"
proof -
  have loop: "p (state_of (forEach cells copyButtonFor s)) = p s" for cells
    by (simp add: forEach_frame copyButtonFor_frame[OF assms(1,2)])
  have new: "p (state_of (newClipboard u)) = p u" for u
    by (simp add: newClipboard_def addEventListener_def assms)
  show ?thesis
  proof (cases "clipboardJS s")
    case False
    then show ?thesis by (simp add: addCopyButtonToCodeCells_def setTimeout_def assms)
  next
    case True
    show ?thesis
    proof (cases "pageElements s ''codeCells''")
      case None
      then show ?thesis using True by (simp add: addCopyButtonToCodeCells_def)
    next
      case (Some cells)
      then show ?thesis
        using True loop[of cells] new
        by (cases "forEach cells copyButtonFor s") (simp_all add: addCopyButtonToCodeCells_def)
    qed
  qed
qed

section \<open>Running when the page is ready\<close>














section \<open>Attributes\<close>

lemma infos_map_info:
  assumes "\<And>e. enid (g e) = enid e"
  shows "infos (map_info g d) = map g (infos d)"
proof (induction d)
  case (Element i t a c cs)
  obtain i' t' a' c' where g: "g (EInfo i t a c) = EInfo i' t' a' c'"
    by (cases "g (EInfo i t a c)") auto
  have "concat (map (infos \<circ> map_info g) cs) = map g (concat (map infos cs))"
    using Element by (induction cs) auto
  then show ?case using g by (simp add: comp_def)
next
  case (Text s)
  then show ?case by simp
qed

lemma enid_set_attr [simp]: "enid (set_attr k v e) = enid e"
  by (cases e) simp

lemma enid_add_class [simp]: "enid (add_class k e) = enid e"
  by (cases e) simp

lemma enid_remove_class [simp]: "enid (remove_class k e) = enid e"
  by (cases e) simp

lemma enid_at_node: "(\<And>e. enid (f e) = enid e) \<Longrightarrow> enid (at_node n f e) = enid e"
  by (simp add: at_node_def)

lemma find_map_comp: "find P (map g xs) = map_option g (find (P \<circ> g) xs)"
  by (induction xs) simp_all

lemma lookup_map_info:
  assumes "\<And>e. enid (g e) = enid e"
  shows "lookup n (map_info g d) = map_option g (lookup n d)"
proof -
  have "(\<lambda>e. enid e = n) \<circ> g = (\<lambda>e. enid e = n)"
    by (auto simp: assms)
  then show ?thesis
    by (simp add: lookup_def infos_map_info[OF assms] find_map_comp)
qed

lemma lookup_enid: "lookup n d = Some e \<Longrightarrow> enid e = n"
  unfolding lookup_def by (auto simp: find_Some_iff)

lemma eattrs_set_attr [simp]: "eattrs (set_attr k v e) = AList.update k v (eattrs e)"
  by (cases e) simp

lemma getAttribute_setAttribute_same:
  assumes "lookup n d \<noteq> None"
  shows "getAttribute n k (setAttribute_tree n k v d) = Some v"
proof -
  obtain e where e: "lookup n d = Some e" using assms by auto
  have "lookup n (setAttribute_tree n k v d) = Some (at_node n (set_attr k v) e)"
    by (simp add: setAttribute_tree_def lookup_map_info enid_at_node e)
  then show ?thesis
    using lookup_enid[OF e] by (simp add: getAttribute_def at_node_def update_conv')
qed

lemma lookup_setAttribute_None:
  "lookup n (setAttribute_tree m k v d) = None \<longleftrightarrow> lookup n d = None"
  by (simp add: setAttribute_tree_def lookup_map_info enid_at_node)

lemma getAttribute_Some_lookup: "getAttribute n k d = Some v \<Longrightarrow> lookup n d \<noteq> None"
  by (auto simp: getAttribute_def split: option.splits)

text \<open>
  Claim C10, for an element that has a \<^verbatim>\<open>data-tooltip\<close> attribute:
  \<^verbatim>\<open>temporarilyChangeTooltip\<close> sets the attribute to the new text and queues one timer of
  2000 ms that holds the old value; when that timer fires next, the attribute has the
  value it had before the call.
\<close>

theorem tooltip_round_trip:
  assumes "getAttribute el ''data-tooltip'' (tree s) = Some v"
  shows "getAttribute el ''data-tooltip'' (tree (temporarilyChangeTooltip el newText s)) = Some newText \<and>
         timers (temporarilyChangeTooltip el newText s) = timers s @ [(RestoreTooltip el (Some v), 2000)] \<and>
         getAttribute el ''data-tooltip''
           (tree (fireTimer (length (timers s)) (temporarilyChangeTooltip el newText s))) = Some v"
proof -
  have in_tree: "lookup el (tree s) \<noteq> None"
    using assms by (rule getAttribute_Some_lookup)
  let ?u = "temporarilyChangeTooltip el newText s"
  have tree_u: "tree ?u = setAttribute_tree el ''data-tooltip'' newText (tree s)"
    by (simp add: temporarilyChangeTooltip_def setTimeout_def setAttribute_def)
  have timers_u: "timers ?u = timers s @ [(RestoreTooltip el (Some v), 2000)]"
    using assms by (simp add: temporarilyChangeTooltip_def setTimeout_def setAttribute_def)
  have first: "getAttribute el ''data-tooltip'' (tree ?u) = Some newText"
    using in_tree by (simp add: tree_u getAttribute_setAttribute_same)
  have in_tree_u: "lookup el (tree ?u) \<noteq> None"
    using in_tree by (simp add: tree_u lookup_setAttribute_None)
  have fired: "tree (fireTimer (length (timers s)) ?u) =
                 setAttribute_tree el ''data-tooltip'' v (tree ?u)"
    using timers_u
    by (simp add: fireTimer_def restoreTooltip_def setAttribute_def)
  show ?thesis
    using first timers_u in_tree_u by (simp add: fired getAttribute_setAttribute_same)
qed

theorem tooltip_round_trip_witness:
  "getAttribute 4 ''data-tooltip'' (tree buttonState) = Some ''Copy'' \<and>
   getAttribute 4 ''data-tooltip'' (tree (temporarilyChangeTooltip 4 ''Copied!'' buttonState))
     = Some ''Copied!'' \<and>
   getAttribute 4 ''data-tooltip''
     (tree (fireTimer (length (timers buttonState))
              (temporarilyChangeTooltip 4 ''Copied!'' buttonState))) = Some ''Copy''"
proof -
  have h: "getAttribute 4 ''data-tooltip'' (tree buttonState) = Some ''Copy''"
    by (simp add: buttonState_def buttonPage_def clipboardButton_def copySVG_def
          getAttribute_def lookup_def)
  show ?thesis using tooltip_round_trip[OF h, of "''Copied!''"] h by simp
qed

text \<open>
  An element without the attribute does not get back what it had: the timer writes the
  string \<^verbatim>\<open>null\<close>, since \<^verbatim>\<open>setAttribute\<close> converts its argument to a string.
\<close>

theorem tooltip_round_trip_counterexample:
  "getAttribute 9 ''data-tooltip'' (tree sampleState) = None \<and>
   getAttribute 9 ''data-tooltip''
     (tree (fireTimer (length (timers sampleState))
              (temporarilyChangeTooltip 9 ''Copied!'' sampleState))) = Some ''null''"
  by (simp add: sampleState_def samplePage_def sampleCell_def getAttribute_def lookup_def
        temporarilyChangeTooltip_def setTimeout_def setAttribute_def setAttribute_tree_def
        fireTimer_def restoreTooltip_def at_node_def)

section \<open>Collecting the cells\<close>

lemma self_annot:
  "map self (annot up prevs n) = infos n"
  "map self (annot_children up prevs ns) = concat (map infos ns)"
  by (induction up prevs n and up prevs ns rule: annot_annot_children.induct)
     (simp_all add: self_def)

lemma self_positions: "map self (positions d) = infos d"
  by (simp add: positions_def self_annot)

lemma querySelectorAll_sub:
  "set (querySelectorAll sels d) \<subseteq> set (map enid (infos d))"
proof -
  have "map enid (infos d) = map (\<lambda>p. enid (self p)) (positions d)"
    by (simp add: self_positions[symmetric])
  then show ?thesis by (auto simp: querySelectorAll_def)
qed

lemma querySelectorAll_distinct:
  assumes "wf_tree d"
  shows "distinct (querySelectorAll sels d)"
proof -
  have "distinct (map (\<lambda>p. enid (self p)) (positions d))"
    using assms by (simp add: wf_tree_def self_positions[symmetric] comp_def)
  then show ?thesis
    unfolding querySelectorAll_def by (rule distinct_map_filter)
qed

lemma lookup_in: "n \<in> enid ` set (infos d) \<Longrightarrow> lookup n d \<noteq> None"
  by (auto simp: lookup_def find_None_iff)

lemma lookup_iff: "lookup n d \<noteq> None \<longleftrightarrow> n \<in> enid ` set (infos d)"
  by (auto simp: lookup_def find_None_iff)

lemma querySelectorAll_lookup: "c \<in> set (querySelectorAll sels d) \<Longrightarrow> lookup c d \<noteq> None"
  using querySelectorAll_sub[of sels d] by (intro lookup_in) auto

lemma getAttribute_setAttribute_other:
  assumes "n \<noteq> m"
  shows "getAttribute n k (setAttribute_tree m k' v d) = getAttribute n k d"
proof -
  have "lookup n (setAttribute_tree m k' v d) = map_option (at_node m (set_attr k' v)) (lookup n d)"
    by (simp add: setAttribute_tree_def lookup_map_info enid_at_node)
  then show ?thesis
    using assms by (auto simp: getAttribute_def at_node_def split: option.splits dest: lookup_enid)
qed

lemma assign_loop:
  assumes "distinct cells" and "\<forall>c \<in> set cells. lookup c (tree s) \<noteq> None"
  shows "\<exists>s'. forEach (enumerate k cells) (assignId f) s = Done s' \<and>
          s' = s\<lparr>tree := tree s'\<rparr> \<and>
          (\<forall>j < length cells. getAttribute (cells ! j) ''id'' (tree s') = Some (f (k + j))) \<and>
          (\<forall>n. n \<notin> set cells \<longrightarrow> getAttribute n ''id'' (tree s') = getAttribute n ''id'' (tree s)) \<and>
          (\<forall>n. lookup n (tree s') = None \<longleftrightarrow> lookup n (tree s) = None)"
  using assms
proof (induction cells arbitrary: k s)
  case Nil
  then show ?case by simp
next
  case (Cons c cells)
  let ?u = "setAttribute c ''id'' (f k) s"
  have tu: "tree ?u = setAttribute_tree c ''id'' (f k) (tree s)"
    by (simp add: setAttribute_def)
  have look: "\<forall>n. lookup n (tree ?u) = None \<longleftrightarrow> lookup n (tree s) = None"
    by (simp add: tu lookup_setAttribute_None)
  have "\<forall>c \<in> set cells. lookup c (tree ?u) \<noteq> None"
    using Cons.prems(2) look by simp
  moreover have "distinct cells" using Cons.prems(1) by simp
  ultimately obtain s' where s': "forEach (enumerate (Suc k) cells) (assignId f) ?u = Done s'"
    and fr: "s' = ?u\<lparr>tree := tree s'\<rparr>"
    and ids: "\<forall>j < length cells. getAttribute (cells ! j) ''id'' (tree s') = Some (f (Suc k + j))"
    and others: "\<forall>n. n \<notin> set cells \<longrightarrow> getAttribute n ''id'' (tree s') = getAttribute n ''id'' (tree ?u)"
    and look': "\<forall>n. lookup n (tree s') = None \<longleftrightarrow> lookup n (tree ?u) = None"
    using Cons.IH[of ?u "Suc k"] by blast
  have run: "forEach (enumerate k (c # cells)) (assignId f) s = Done s'"
    using s' by (simp add: assignId_def)
  have c_notin: "c \<notin> set cells" using Cons.prems(1) by simp
  have c_in: "lookup c (tree s) \<noteq> None" using Cons.prems(2) by simp
  have c_id: "getAttribute c ''id'' (tree s') = Some (f k)"
    using others c_notin c_in by (simp add: tu getAttribute_setAttribute_same)
  have all_ids: "\<forall>j < length (c # cells). getAttribute ((c # cells) ! j) ''id'' (tree s') = Some (f (k + j))"
  proof (intro allI impI)
    fix j assume "j < length (c # cells)"
    then show "getAttribute ((c # cells) ! j) ''id'' (tree s') = Some (f (k + j))"
      using c_id ids by (cases j) simp_all
  qed
  have frame: "s' = s\<lparr>tree := tree s'\<rparr>"
  proof -
    obtain t where "s' = ?u\<lparr>tree := t\<rparr>" using fr by blast
    then have "s' = s\<lparr>tree := t\<rparr>" by (simp add: setAttribute_def)
    moreover from this have "tree s' = t" by simp
    ultimately show ?thesis by simp
  qed
  have rest: "\<forall>n. n \<notin> set (c # cells) \<longrightarrow> getAttribute n ''id'' (tree s') = getAttribute n ''id'' (tree s)"
    using others by (simp add: tu getAttribute_setAttribute_other)
  show ?case
    using run all_ids frame rest look look' by blast
qed

text \<open>
  Claim C5. \<^verbatim>\<open>findCodeCells\<close> returns normally, stores in \<^verbatim>\<open>pageElements['codeCells']\<close> the
  elements that match its selectors, in document order, and leaves the \<open>i\<close>-th of them
  with the id \<^verbatim>\<open>codecell<i>\<close>; \<^verbatim>\<open>findInputCells\<close> does the same with \<^verbatim>\<open>div.jb_cell\<close>,
  \<^verbatim>\<open>pageElements['inputCells']\<close> and \<^verbatim>\<open>inputcell<i>\<close>.
\<close>

theorem find_cells_assign_ids:
  assumes "wf_tree (tree s)"
  shows "(\<exists>s'. findCodeCells s = Done s' \<and>
            pageElements s' ''codeCells'' = Some (querySelectorAll codeCellSelector (tree s)) \<and>
            assigned codeCellId (querySelectorAll codeCellSelector (tree s)) (tree s')) \<and>
         (\<exists>s'. findInputCells s = Done s' \<and>
            pageElements s' ''inputCells'' = Some (querySelectorAll inputCellSelector (tree s)) \<and>
            assigned inputCellId (querySelectorAll inputCellSelector (tree s)) (tree s'))"
proof -
  have gen: "\<exists>s'. forEach (enumerate 0 (querySelectorAll sels (tree s))) (assignId f)
                    (s\<lparr>pageElements := (pageElements s)(key \<mapsto> querySelectorAll sels (tree s))\<rparr>) = Done s' \<and>
            pageElements s' key = Some (querySelectorAll sels (tree s)) \<and>
            assigned f (querySelectorAll sels (tree s)) (tree s')" for sels f key
  proof -
    let ?cells = "querySelectorAll sels (tree s)"
    let ?s0 = "s\<lparr>pageElements := (pageElements s)(key \<mapsto> ?cells)\<rparr>"
    have d: "distinct ?cells" using assms by (rule querySelectorAll_distinct)
    have "\<forall>c \<in> set ?cells. lookup c (tree ?s0) \<noteq> None"
      by (simp add: querySelectorAll_lookup)
    then obtain s' where run: "forEach (enumerate 0 ?cells) (assignId f) ?s0 = Done s'"
      and fr: "s' = ?s0\<lparr>tree := tree s'\<rparr>"
      and ids: "\<forall>j < length ?cells. getAttribute (?cells ! j) ''id'' (tree s') = Some (f (0 + j))"
      using assign_loop[OF d, of ?s0 0 f] by blast
    have "pageElements s' = pageElements ?s0"
    proof -
      obtain t where "s' = ?s0\<lparr>tree := t\<rparr>" using fr by blast
      then show ?thesis by simp
    qed
    then have "pageElements s' key = Some ?cells" by simp
    then show ?thesis using run ids by (auto simp: assigned_def)
  qed
  show ?thesis
    using gen[of codeCellSelector codeCellId "''codeCells''"]
      gen[of inputCellSelector inputCellId "''inputCells''"]
    by (simp add: findCodeCells_def findInputCells_def Let_def)
qed

lemma codeCellId_0: "codeCellId 0 = ''codecell0''" and codeCellId_1: "codeCellId (Suc 0) = ''codecell1''"
  and inputCellId_0: "inputCellId 0 = ''inputcell0''" and inputCellId_1: "inputCellId (Suc 0) = ''inputcell1''"
  by code_simp+

lemma sample_codeCells: "querySelectorAll codeCellSelector (tree sampleState) = [9, 17]"
  by code_simp

lemma sample_inputCells: "querySelectorAll inputCellSelector (tree sampleState) = [2, 10]"
  by code_simp

lemma sample_wf: "wf_tree (tree sampleState)"
  by code_simp

theorem find_cells_assign_ids_witness:
  "wf_tree (tree sampleState) \<and>
   (\<exists>s'. findCodeCells sampleState = Done s' \<and> pageElements s' ''codeCells'' = Some [9, 17] \<and>
      getAttribute 9 ''id'' (tree s') = Some ''codecell0'' \<and>
      getAttribute 17 ''id'' (tree s') = Some ''codecell1'') \<and>
   (\<exists>s'. findInputCells sampleState = Done s' \<and> pageElements s' ''inputCells'' = Some [2, 10] \<and>
      getAttribute 2 ''id'' (tree s') = Some ''inputcell0'' \<and>
      getAttribute 10 ''id'' (tree s') = Some ''inputcell1'')"
proof -
  have two: "assigned f [a, b] d \<Longrightarrow>
      getAttribute a ''id'' d = Some (f 0) \<and> getAttribute b ''id'' d = Some (f 1)" for f a b d
    unfolding assigned_def by (metis One_nat_def length_Cons lessI list.size(3) nth_Cons_0 nth_Cons_Suc zero_less_Suc)
  show ?thesis
    using find_cells_assign_ids[OF sample_wf] sample_wf two[of codeCellId 9 17] two[of inputCellId 2 10]
    by (auto simp: sample_codeCells sample_inputCells codeCellId_0 codeCellId_1 inputCellId_0 inputCellId_1)
qed

section \<open>Inserting after an element\<close>

lemma ids_of_simps [simp]:
  "ids_of [] = {}"
  "ids_of (n # ns) = enid ` set (infos n) \<union> ids_of ns"
  "ids_of (ns @ ms) = ids_of ns \<union> ids_of ms"
  by (auto simp: ids_of_def)

lemma infos_Element_hd: "infos (Element i t a c cs) = EInfo i t a c # concat (map infos cs)"
  by simp

lemma has_parent_Element:
  "has_parent n (Element i t a c cs) \<longleftrightarrow> n \<in> ids_of cs"
  by (simp add: has_parent_def ids_of_def)

lemma node_id_in_ids: "Some n \<in> set (map node_id cs) \<Longrightarrow> n \<in> ids_of cs"
proof (induction cs)
  case Nil
  then show ?case by simp
next
  case (Cons x xs)
  then show ?case by (cases x) auto
qed

lemma info_insert_after [simp]: "info (insert_after c new n) = info n"
  by (cases n) simp_all

lemma node_id_insert_after [simp]: "node_id (insert_after c new n) = node_id n"
  by (cases n) simp_all

lemma node_id_info: "node_id n = map_option enid (info n)"
  by (cases n) simp_all

text \<open>Filtering the elements of the tree after an insertion.\<close>

lemma filter_insert_after_list:
  assumes "\<forall>e \<in> set (concat (map infos new)). \<not> P e"
  shows "filter P (concat (map infos (insert_after_list c new cs))) = filter P (concat (map infos cs))"
  using assms by (induction cs) (auto simp: filter_concat comp_def)

lemma filter_empty_new:
  assumes "\<forall>e \<in> set (concat (map infos new)). \<not> P e"
  shows "filter P (concat (map infos new)) = []"
  using assms by (simp add: filter_empty_conv)

lemma filter_insert_after:
  assumes "\<forall>e \<in> set (concat (map infos new)). \<not> P e"
  shows "filter P (infos (insert_after c new d)) = filter P (infos d)"
proof (induction d)
  case (Element i t a cl cs)
  show ?case
  proof (cases "Some c \<in> set (map node_id cs)")
    case True
    then show ?thesis using filter_insert_after_list[OF assms, of c cs] by simp
  next
    case False
    have "concat (map (filter P \<circ> infos \<circ> insert_after c new) cs) = concat (map (filter P \<circ> infos) cs)"
      using Element by (induction cs) auto
    then show ?thesis using False by (simp add: filter_concat comp_def)
  qed
next
  case (Text s)
  then show ?case by simp
qed

lemma find_filter: "find P xs = (case filter P xs of [] \<Rightarrow> None | x # _ \<Rightarrow> Some x)"
  by (induction xs) auto

lemma lookup_insert_after:
  assumes "n \<notin> ids_of new"
  shows "lookup n (insert_after c new d) = lookup n d"
proof -
  have "\<forall>e \<in> set (concat (map infos new)). \<not> enid e = n"
    using assms by (auto simp: ids_of_def)
  then show ?thesis
    unfolding lookup_def find_filter[of "\<lambda>e. enid e = n"]
    by (simp add: filter_insert_after)
qed

lemma getElementById_insert_after:
  assumes "\<forall>e \<in> set (concat (map infos new)). map_of (eattrs e) ''id'' \<noteq> Some x"
  shows "getElementById x (insert_after c new d) = getElementById x d"
  using assms
  unfolding getElementById_def find_filter[of "\<lambda>e. map_of (eattrs e) ''id'' = Some x"]
  by (simp add: filter_insert_after)

text \<open>Where the elements of the tree come from after an insertion.\<close>

lemma set_insert_after_list:
  "set (concat (map infos (insert_after_list c new cs)))
     \<subseteq> set (concat (map infos cs)) \<union> set (concat (map infos new))"
  "set (concat (map infos cs)) \<subseteq> set (concat (map infos (insert_after_list c new cs)))"
  by (induction cs) auto

lemma set_insert_after:
  "set (infos (insert_after c new d)) \<subseteq> set (infos d) \<union> set (concat (map infos new)) \<and>
   set (infos d) \<subseteq> set (infos (insert_after c new d)) \<and>
   set (tl (infos d)) \<subseteq> set (tl (infos (insert_after c new d)))"
proof (induction d)
  case (Element i t a cl cs)
  show ?case
  proof (cases "Some c \<in> set (map node_id cs)")
    case True
    then show ?thesis using set_insert_after_list[where c=c and new=new and cs=cs] by auto
  next
    case False
    have "\<forall>x \<in> set cs. set (infos (insert_after c new x)) \<subseteq> set (infos x) \<union> set (concat (map infos new))
          \<and> set (infos x) \<subseteq> set (infos (insert_after c new x))"
      using Element by blast
    then show ?thesis using False by (auto simp: comp_def) blast+
  qed
next
  case (Text s)
  then show ?case by simp
qed

lemma has_parent_insert_after: "has_parent n d \<Longrightarrow> has_parent n (insert_after c new d)"
  using set_insert_after[where d=d and c=c and new=new] by (auto simp: has_parent_def)

lemma in_ids_child: "x \<in> set cs \<Longrightarrow> enid ` set (infos x) \<subseteq> ids_of cs"
  by (auto simp: ids_of_def)

lemma has_parent_in_ids: "has_parent c x \<Longrightarrow> c \<in> enid ` set (infos x)"
  by (cases x) (auto simp: has_parent_def)

lemma no_parent_child:
  assumes "c \<notin> ids_of cs" and "x \<in> set cs"
  shows "\<not> has_parent c x" and "node_id x \<noteq> Some c"
proof -
  show "\<not> has_parent c x"
    using assms in_ids_child[OF assms(2)] has_parent_in_ids[of c x] by blast
  show "node_id x \<noteq> Some c"
    using assms in_ids_child[OF assms(2)] by (cases x) auto
qed

lemma insert_after_none:
  "\<not> has_parent c n \<Longrightarrow> insert_after c new n = n"
proof (induction n)
  case (Element i t a cl cs)
  have notin: "c \<notin> ids_of cs" using Element.prems by (simp add: has_parent_Element)
  then have "Some c \<notin> set (map node_id cs)" using node_id_in_ids by blast
  moreover have "map (insert_after c new) cs = cs"
    using Element.IH no_parent_child(1)[OF notin] by (simp add: map_idI)
  ultimately show ?case by simp
next
  case (Text s)
  then show ?case by simp
qed

lemma first_some_None: "(\<forall>x \<in> set xs. x = None) \<Longrightarrow> first_some xs = None"
  by (induction xs rule: first_some.induct) auto

lemma nextSibling_none:
  "\<not> has_parent c n \<Longrightarrow> nextSibling c n = None"
proof (induction n)
  case (Element i t a cl cs)
  have notin: "c \<notin> ids_of cs" using Element.prems by (simp add: has_parent_Element)
  then have "Some c \<notin> set (map node_id cs)" using node_id_in_ids by blast
  moreover have "first_some (map (nextSibling c) cs) = None"
    using Element.IH no_parent_child(1)[OF notin] by (intro first_some_None) auto
  ultimately show ?case by simp
next
  case (Text s)
  then show ?case by simp
qed

lemma nextSibling_absent: "n \<notin> enid ` set (infos d) \<Longrightarrow> nextSibling n d = None"
  using has_parent_in_ids nextSibling_none by blast

lemma node_ids_insert_after_list:
  "Some c \<in> set (map node_id cs) \<Longrightarrow> Some c \<in> set (map node_id (insert_after_list c new cs))"
  by (induction cs) auto

lemma next_in_inserted:
  "Some c \<in> set (map node_id cs) \<Longrightarrow> next_in c (insert_after_list c (b # bs) cs) = Some b"
proof (induction cs)
  case Nil
  then show ?case by simp
next
  case (Cons x xs)
  show ?case
  proof (cases "node_id x = Some c")
    case True
    then show ?thesis by simp
  next
    case False
    then have in_xs: "Some c \<in> set (map node_id xs)" using Cons.prems by auto
    then obtain y ys where ys: "insert_after_list c (b # bs) xs = y # ys"
      using node_ids_insert_after_list[OF in_xs, of "b # bs"]
      by (cases "insert_after_list c (b # bs) xs") auto
    show ?thesis using False Cons.IH[OF in_xs] ys by simp
  qed
qed

lemma next_in_skip: "node_id x \<noteq> Some k \<Longrightarrow> next_in k (x # r) = next_in k r"
  by (cases r) simp_all

text \<open>The node inserted after an element is its next sibling.\<close>

lemma nextSibling_inserted:
  "has_parent c n \<Longrightarrow> nextSibling c (insert_after c (b # bs) n) = Some b"
proof (induction n)
  case (Element i t a cl cs)
  have inside: "c \<in> ids_of cs" using Element.prems by (simp add: has_parent_Element)
  show ?case
  proof (cases "Some c \<in> set (map node_id cs)")
    case True
    then show ?thesis
      using node_ids_insert_after_list[OF True, of "b # bs"] next_in_inserted[OF True]
      by simp
  next
    case False
    have "first_some (map (nextSibling c \<circ> insert_after c (b # bs)) xs) = Some b"
      if "set xs \<subseteq> set cs" and "c \<in> ids_of xs" for xs
      using that
    proof (induction xs)
      case Nil
      then show ?case by simp
    next
      case (Cons x xs)
      have x_in: "x \<in> set cs" using Cons.prems(1) by simp
      then have not_root: "node_id x \<noteq> Some c" using False by force
      show ?case
      proof (cases "has_parent c x")
        case True
        then show ?thesis using Element.IH[OF x_in] by simp
      next
        case no: False
        then have "nextSibling c (insert_after c (b # bs) x) = None"
          by (simp add: insert_after_none nextSibling_none)
        moreover have "c \<notin> enid ` set (infos x)"
          using no not_root by (cases x) (auto simp: has_parent_def)
        then have "c \<in> ids_of xs" using Cons.prems(2) by simp
        ultimately show ?thesis using Cons.IH Cons.prems(1) by simp
      qed
    qed
    from this[of cs] inside show ?thesis using False by (simp add: comp_def)
  qed
next
  case (Text s)
  then show ?case by (simp add: has_parent_def)
qed

lemma next_in_map:
  assumes "\<And>x. node_id (f x) = node_id x"
  shows "next_in n (map f cs) = map_option f (next_in n cs)"
  by (induction n cs rule: next_in.induct) (simp_all add: assms)

lemma next_in_insert_other:
  assumes "n \<noteq> c" and "n \<notin> ids_of new"
  shows "next_in n (insert_after_list c new cs) = next_in n cs"
proof (induction cs)
  case Nil
  then show ?case by simp
next
  case (Cons x xs)
  have skip_new: "next_in n (new @ r) = next_in n r" for r
    using assms(2)
  proof (induction new)
    case Nil
    then show ?case by simp
  next
    case (Cons y ys)
    then have "node_id y \<noteq> Some n" by (cases y) auto
    then show ?case using Cons by (simp add: next_in_skip)
  qed
  show ?case
  proof (cases "node_id x = Some c")
    case True
    then have "node_id x \<noteq> Some n" using assms(1) by simp
    then show ?thesis using True skip_new by (simp add: next_in_skip)
  next
    case False
    show ?thesis
    proof (cases "node_id x = Some n")
      case True
      show ?thesis
      proof (cases xs)
        case Nil
        then show ?thesis using False by simp
      next
        case (Cons y ys)
        then obtain z zs where "insert_after_list c new xs = z # zs" and "z = y"
          by (cases "node_id y = Some c") auto
        then show ?thesis using True False Cons by simp
      qed
    next
      case nn: False
      then show ?thesis using False Cons.IH by (simp add: next_in_skip)
    qed
  qed
qed

lemma ids_insert_after_list:
  "Some n \<in> set (map node_id (insert_after_list c new cs))
     \<Longrightarrow> Some n \<in> set (map node_id cs) \<or> n \<in> ids_of new"
proof (induction cs)
  case Nil
  then show ?case by simp
next
  case (Cons x xs)
  then show ?case using node_id_in_ids[of n new] by (auto split: if_splits)
qed

lemma ids_insert_after_list_mono:
  "Some n \<in> set (map node_id cs) \<Longrightarrow> Some n \<in> set (map node_id (insert_after_list c new cs))"
  by (induction cs) auto

lemma first_some_insert_list:
  assumes "\<forall>y \<in> set new. g y = None"
  shows "first_some (map g (insert_after_list c new cs)) = first_some (map g cs)"
proof -
  have skip: "first_some (map g new @ r) = first_some r" for r
    using assms by (induction new) auto
  show ?thesis
  proof (induction cs)
    case Nil
    then show ?case by simp
  next
    case (Cons x xs)
    then show ?case using skip by (cases "g x") auto
  qed
qed

lemma first_some_cong:
  assumes "\<forall>x \<in> set xs. map_option h (g1 x) = map_option h (g2 x)"
  shows "map_option h (first_some (map g1 xs)) = map_option h (first_some (map g2 xs))"
  using assms
proof (induction xs)
  case Nil
  then show ?case by simp
next
  case (Cons x xs)
  then show ?case by (cases "g1 x"; cases "g2 x") auto
qed

text \<open>An insertion elsewhere leaves the next sibling of an element what it was.\<close>

lemma nextSibling_insert_other_gen:
  assumes "n \<noteq> c" and "n \<notin> ids_of new"
  shows "map_option info (nextSibling n (insert_after c new d)) = map_option info (nextSibling n d)"
proof (induction d)
  case (Element i t a cl cs)
  show ?case
  proof (cases "Some c \<in> set (map node_id cs)")
    case True
    show ?thesis
    proof (cases "Some n \<in> set (map node_id cs)")
      case here: True
      then show ?thesis
        using True ids_insert_after_list_mono[OF here, of c new] next_in_insert_other[OF assms]
        by simp
    next
      case nothere: False
      then have "Some n \<notin> set (map node_id (insert_after_list c new cs))"
        using ids_insert_after_list[of n c new cs] assms(2) by blast
      moreover have "\<forall>y \<in> set new. nextSibling n y = None"
        using assms(2) by (auto intro!: nextSibling_absent simp: ids_of_def)
      ultimately show ?thesis
        using True nothere first_some_insert_list[of new "nextSibling n" c cs]
        by simp
    qed
  next
    case False
    show ?thesis
    proof (cases "Some n \<in> set (map node_id cs)")
      case here: True
      have "next_in n (map (insert_after c new) cs) = map_option (insert_after c new) (next_in n cs)"
        by (rule next_in_map) simp
      then show ?thesis
        using False here by (simp add: comp_def option.map_comp)
    next
      case nothere: False
      have "map_option info (first_some (map (\<lambda>x. nextSibling n (insert_after c new x)) cs))
            = map_option info (first_some (map (nextSibling n) cs))"
        by (rule first_some_cong) (simp add: Element.IH)
      then show ?thesis
        using False nothere by (simp add: comp_def)
    qed
  qed
next
  case (Text s)
  then show ?case by simp
qed

lemma nextSibling_insert_other:
  assumes "n \<noteq> c" and "n \<notin> ids_of new"
  shows "nextSibling_info n (insert_after c new d) = nextSibling_info n d"
  using nextSibling_insert_other_gen[OF assms, of d]
  by (auto simp: nextSibling_info_def split: option.splits)

lemma next_in_fresh:
  assumes "k \<noteq> c" and "node_id b = Some k" and "Some k \<notin> set (map node_id cs)"
  shows "next_in k (insert_after_list c [b] cs) = next_in c cs"
  using assms(3)
proof (induction cs)
  case Nil
  then show ?case by simp
next
  case (Cons x xs)
  have xk: "node_id x \<noteq> Some k" using Cons.prems by auto
  show ?case
  proof (cases "node_id x = Some c")
    case True
    then show ?thesis using xk assms(2) by (cases xs) simp_all
  next
    case False
    have "next_in c (x # xs) = next_in c xs" using False by (simp add: next_in_skip)
    moreover have "next_in k (x # insert_after_list c [b] xs) = next_in k (insert_after_list c [b] xs)"
      using xk by (simp add: next_in_skip)
    ultimately show ?thesis using False Cons by simp
  qed
qed

text \<open>What followed the element follows the inserted node.\<close>

lemma nextSibling_of_inserted:
  assumes "k \<noteq> c" and "node_id b = Some k" and "k \<notin> enid ` set (infos d)"
  shows "nextSibling k (insert_after c [b] d) = nextSibling c d"
  using assms(3)
proof (induction d)
  case (Element i t a cl cs)
  have k_out: "k \<notin> ids_of cs" using Element.prems by (auto simp: ids_of_def)
  then have k_not: "Some k \<notin> set (map node_id cs)" using node_id_in_ids by blast
  show ?case
  proof (cases "Some c \<in> set (map node_id cs)")
    case True
    have "Some k \<in> set (map node_id (insert_after_list c [b] cs))"
      using True assms(2) by (induction cs) auto
    then show ?thesis using True next_in_fresh[OF assms(1,2) k_not] by simp
  next
    case False
    have eq: "map (\<lambda>x. nextSibling k (insert_after c [b] x)) cs = map (nextSibling c) cs"
    proof (rule map_cong[OF refl])
      fix x assume x: "x \<in> set cs"
      then have "k \<notin> enid ` set (infos x)" using k_out in_ids_child by blast
      then show "nextSibling k (insert_after c [b] x) = nextSibling c x"
        using Element.IH[OF x] by simp
    qed
    show ?thesis using False k_not by (simp add: comp_def eq)
  qed
next
  case (Text s)
  then show ?case by simp
qed

section \<open>Copy buttons\<close>

lemma infos_clipboardButton:
  "map enid (infos (clipboardButton ident k)) = [k, k + 1, k + 2, k + 3]"
  by (simp add: clipboardButton_def copySVG_def numeral_eq_Suc)

lemma ids_clipboardButton:
  "enid ` set (infos (clipboardButton ident k)) = {k, k + 1, k + 2, k + 3}"
proof -
  have "enid ` set (infos (clipboardButton ident k)) = set (map enid (infos (clipboardButton ident k)))"
    by simp
  then show ?thesis unfolding infos_clipboardButton by simp
qed

lemma button_ids:
  "map (\<lambda>e. map_of (eattrs e) ''id'') (infos (clipboardButton ident k))
     = [Some (''copy-button-'' @ ident), None, Some ''title'', None]"
  by (simp add: clipboardButton_def copySVG_def)

lemma node_id_clipboardButton: "node_id (clipboardButton ident k) = Some k"
  by (simp add: clipboardButton_def)

lemma fresh_lookup: "fresh s \<Longrightarrow> lookup n (tree s) \<noteq> None \<Longrightarrow> n < nextId s"
  using lookup_iff[of n "tree s"] by (auto simp: fresh_def list_all_iff)

lemma has_parent_lookup: "has_parent n d \<Longrightarrow> lookup n d \<noteq> None"
  using has_parent_in_ids lookup_iff by blast

lemma has_parent_fresh: "fresh s \<Longrightarrow> has_parent n (tree s) \<Longrightarrow> n < nextId s"
  using fresh_lookup has_parent_lookup by blast

lemma fresh_absent: "fresh s \<Longrightarrow> nextId s \<le> k \<Longrightarrow> k \<notin> enid ` set (infos (tree s))"
  by (auto simp: fresh_def list_all_iff)

lemma getAttribute_lookup_eq: "lookup n d' = lookup n d \<Longrightarrow> getAttribute n k d' = getAttribute n k d"
  by (simp add: getAttribute_def)

text \<open>One pass of the loop body over a cell whose check finds nothing.\<close>

lemma copyButtonFor_step:
  assumes fr: "fresh s" and par: "has_parent c (tree s)"
    and ident: "getAttribute c ''id'' (tree s) = Some ident"
    and guard: "getElementById (''copy-button'' @ ident) (tree s) = None"
  defines "s' \<equiv> s\<lparr>nextId := nextId s + 4,
                  tree := insert_after c [clipboardButton ident (nextId s)] (tree s)\<rparr>"
  shows "copyButtonFor c s = Done s'"
    and "fresh s'"
    and "nextSibling_info c (tree s') = info (clipboardButton ident (nextId s))"
    and "nextSibling_info (nextId s) (tree s') = nextSibling_info c (tree s)"
    and "\<forall>n < nextId s. n \<noteq> c \<longrightarrow> nextSibling_info n (tree s') = nextSibling_info n (tree s)"
    and "\<forall>n < nextId s. lookup n (tree s') = lookup n (tree s)"
    and "\<forall>n. has_parent n (tree s) \<longrightarrow> has_parent n (tree s')"
    and "\<forall>x. x \<noteq> ''copy-button-'' @ ident \<longrightarrow> x \<noteq> ''title'' \<longrightarrow>
           getElementById x (tree s') = getElementById x (tree s)"
proof -
  let ?b = "clipboardButton ident (nextId s)"
  have c_lt: "c < nextId s" using fr par by (simp add: fresh_lookup has_parent_lookup)
  show "copyButtonFor c s = Done s'"
    using par ident guard
    by (simp add: copyButtonFor_def insertAdjacentHTML_afterend_def s'_def)
  have tree': "tree s' = insert_after c [?b] (tree s)" by (simp add: s'_def)
  have nid': "nextId s' = nextId s + 4" by (simp add: s'_def)
  show "fresh s'"
  proof -
    have "\<forall>e \<in> set (infos (tree s')). enid e < nextId s + 4"
    proof
      fix e assume "e \<in> set (infos (tree s'))"
      then have "e \<in> set (infos (tree s)) \<or> e \<in> set (concat (map infos [?b]))"
        using set_insert_after[where d="tree s" and c=c and new="[?b]"] tree' by auto
      moreover have "e \<in> set (infos (tree s)) \<Longrightarrow> enid e < nextId s"
        using fr by (simp add: fresh_def list_all_iff)
      moreover have "e \<in> set (concat (map infos [?b])) \<Longrightarrow> enid e \<in> {nextId s, nextId s + 1, nextId s + 2, nextId s + 3}"
        using ids_clipboardButton[of ident "nextId s"] by auto
      ultimately show "enid e < nextId s + 4" by auto
    qed
    then show ?thesis by (simp add: fresh_def list_all_iff nid')
  qed
  show "nextSibling_info c (tree s') = info ?b"
    using nextSibling_inserted[OF par, of ?b "[]"] by (simp add: nextSibling_info_def tree')
  show "nextSibling_info (nextId s) (tree s') = nextSibling_info c (tree s)"
  proof -
    have "nextId s \<noteq> c" using c_lt by simp
    moreover have "nextId s \<notin> enid ` set (infos (tree s))"
      using fr by (rule fresh_absent) simp
    ultimately have "nextSibling (nextId s) (insert_after c [?b] (tree s)) = nextSibling c (tree s)"
      using node_id_clipboardButton by (intro nextSibling_of_inserted) auto
    then show ?thesis by (simp add: nextSibling_info_def tree')
  qed
  have old_out: "n \<notin> ids_of [?b]" if "n < nextId s" for n
    using that by (simp add: ids_clipboardButton)
  show "\<forall>n < nextId s. n \<noteq> c \<longrightarrow> nextSibling_info n (tree s') = nextSibling_info n (tree s)"
    using old_out by (simp add: tree' nextSibling_insert_other)
  show "\<forall>n < nextId s. lookup n (tree s') = lookup n (tree s)"
    using old_out by (simp add: tree' lookup_insert_after)
  show "\<forall>n. has_parent n (tree s) \<longrightarrow> has_parent n (tree s')"
    by (simp add: tree' has_parent_insert_after)
  show "\<forall>x. x \<noteq> ''copy-button-'' @ ident \<longrightarrow> x \<noteq> ''title'' \<longrightarrow>
           getElementById x (tree s') = getElementById x (tree s)"
  proof (intro allI impI)
    fix x assume x: "x \<noteq> ''copy-button-'' @ ident" "x \<noteq> ''title''"
    have "\<forall>e \<in> set (concat (map infos [?b])). map_of (eattrs e) ''id'' \<noteq> Some x"
    proof
      fix e assume "e \<in> set (concat (map infos [?b]))"
      then have "map_of (eattrs e) ''id'' \<in> set (map (\<lambda>e. map_of (eattrs e) ''id'') (infos ?b))"
        by auto
      then show "map_of (eattrs e) ''id'' \<noteq> Some x"
        using x unfolding button_ids by auto
    qed
    then show "getElementById x (tree s') = getElementById x (tree s)"
      by (simp add: tree' getElementById_insert_after)
  qed
qed

lemma copy_loop:
  assumes "fresh s" and "distinct cells"
    and "\<forall>c \<in> set cells. has_parent c (tree s)"
    and "\<forall>c \<in> set cells. getAttribute c ''id'' (tree s) = Some (idf c)"
    and "\<forall>c \<in> set cells. getElementById (''copy-button'' @ idf c) (tree s) = None"
    and "\<forall>c \<in> set cells. \<forall>c' \<in> set cells. idf c \<noteq> CHR ''-'' # idf c'"
  shows "\<exists>s'. forEach cells copyButtonFor s = Done s' \<and> fresh s' \<and>
           s' = s\<lparr>tree := tree s', nextId := nextId s'\<rparr> \<and> nextId s \<le> nextId s' \<and>
           (\<forall>c \<in> set cells. \<exists>k. nextId s \<le> k \<and> k < nextId s' \<and>
               nextSibling_info c (tree s') = info (clipboardButton (idf c) k) \<and>
               nextSibling_info k (tree s') = nextSibling_info c (tree s)) \<and>
           (\<forall>n < nextId s. n \<notin> set cells \<longrightarrow>
               nextSibling_info n (tree s') = nextSibling_info n (tree s)) \<and>
           (\<forall>n < nextId s. lookup n (tree s') = lookup n (tree s)) \<and>
           (\<forall>n. has_parent n (tree s) \<longrightarrow> has_parent n (tree s')) \<and>
           (\<forall>x. (\<forall>c \<in> set cells. x \<noteq> ''copy-button-'' @ idf c) \<longrightarrow> x \<noteq> ''title'' \<longrightarrow>
               getElementById x (tree s') = getElementById x (tree s))"
  using assms
proof (induction cells arbitrary: s)
  case Nil
  then show ?case by simp
next
  case (Cons c cells)
  let ?s1 = "s\<lparr>nextId := nextId s + 4,
               tree := insert_after c [clipboardButton (idf c) (nextId s)] (tree s)\<rparr>"
  have fr: "fresh s" and par: "has_parent c (tree s)"
    and ident: "getAttribute c ''id'' (tree s) = Some (idf c)"
    and guard: "getElementById (''copy-button'' @ idf c) (tree s) = None"
    using Cons.prems by simp_all
  note step = copyButtonFor_step[OF fr par ident guard]
  have lt: "\<forall>c' \<in> set (c # cells). c' < nextId s"
  proof
    fix c' assume "c' \<in> set (c # cells)"
    then have "has_parent c' (tree s)" using Cons.prems(3) by blast
    then show "c' < nextId s" using fr fresh_lookup has_parent_lookup by blast
  qed
  have c_notin: "c \<notin> set cells" using Cons.prems(2) by simp
  have h1: "fresh ?s1" using step(2) .
  have h2: "distinct cells" using Cons.prems(2) by simp
  have h3: "\<forall>c' \<in> set cells. has_parent c' (tree ?s1)"
    using step(7) Cons.prems(3) by simp
  have h4: "\<forall>c' \<in> set cells. getAttribute c' ''id'' (tree ?s1) = Some (idf c')"
  proof
    fix c' assume c': "c' \<in> set cells"
    then have "lookup c' (tree ?s1) = lookup c' (tree s)" using step(6) lt by simp
    then show "getAttribute c' ''id'' (tree ?s1) = Some (idf c')"
      using Cons.prems(4) c' by (simp add: getAttribute_def)
  qed
  have h5: "\<forall>c' \<in> set cells. getElementById (''copy-button'' @ idf c') (tree ?s1) = None"
  proof
    fix c' assume c': "c' \<in> set cells"
    have "idf c' \<noteq> CHR ''-'' # idf c" using Cons.prems(6) c' by simp
    then have "''copy-button'' @ idf c' \<noteq> ''copy-button-'' @ idf c" by simp
    moreover have "''copy-button'' @ idf c' \<noteq> ''title''" by simp
    ultimately have "getElementById (''copy-button'' @ idf c') (tree ?s1)
                     = getElementById (''copy-button'' @ idf c') (tree s)"
      using step(8) by blast
    then show "getElementById (''copy-button'' @ idf c') (tree ?s1) = None"
      using Cons.prems(5) c' by simp
  qed
  have h6: "\<forall>a \<in> set cells. \<forall>b \<in> set cells. idf a \<noteq> CHR ''-'' # idf b"
    using Cons.prems(6) by simp
  obtain s' where run: "forEach cells copyButtonFor ?s1 = Done s'"
    and fr': "fresh s'"
    and frame: "s' = ?s1\<lparr>tree := tree s', nextId := nextId s'\<rparr>"
    and mono: "nextId ?s1 \<le> nextId s'"
    and buttons: "\<forall>c' \<in> set cells. \<exists>k. nextId ?s1 \<le> k \<and> k < nextId s' \<and>
               nextSibling_info c' (tree s') = info (clipboardButton (idf c') k) \<and>
               nextSibling_info k (tree s') = nextSibling_info c' (tree ?s1)"
    and others: "\<forall>n < nextId ?s1. n \<notin> set cells \<longrightarrow>
               nextSibling_info n (tree s') = nextSibling_info n (tree ?s1)"
    and looks: "\<forall>n < nextId ?s1. lookup n (tree s') = lookup n (tree ?s1)"
    and pars: "\<forall>n. has_parent n (tree ?s1) \<longrightarrow> has_parent n (tree s')"
    and byid: "\<forall>x. (\<forall>c' \<in> set cells. x \<noteq> ''copy-button-'' @ idf c') \<longrightarrow> x \<noteq> ''title'' \<longrightarrow>
               getElementById x (tree s') = getElementById x (tree ?s1)"
    using Cons.IH[OF h1 h2 h3 h4 h5 h6] by blast
  have n1: "nextId ?s1 = nextId s + 4" by simp
  have g1: "forEach (c # cells) copyButtonFor s = Done s'"
    using step(1) run by simp
  have g3: "s' = s\<lparr>tree := tree s', nextId := nextId s'\<rparr>"
  proof -
    obtain t k where "s' = ?s1\<lparr>tree := t, nextId := k\<rparr>" using frame by blast
    then have "s' = s\<lparr>tree := t, nextId := k\<rparr>" by simp
    moreover from this have "tree s' = t" "nextId s' = k" by simp_all
    ultimately show ?thesis by simp
  qed
  have g4: "nextId s \<le> nextId s'" using mono by simp
  have g5: "\<forall>c' \<in> set (c # cells). \<exists>k. nextId s \<le> k \<and> k < nextId s' \<and>
               nextSibling_info c' (tree s') = info (clipboardButton (idf c') k) \<and>
               nextSibling_info k (tree s') = nextSibling_info c' (tree s)"
  proof
    fix c' assume c': "c' \<in> set (c # cells)"
    show "\<exists>k. nextId s \<le> k \<and> k < nextId s' \<and>
               nextSibling_info c' (tree s') = info (clipboardButton (idf c') k) \<and>
               nextSibling_info k (tree s') = nextSibling_info c' (tree s)"
    proof (cases "c' = c")
      case True
      have c_lt: "c < nextId ?s1" using lt by simp
      have a: "nextSibling_info c (tree s') = info (clipboardButton (idf c) (nextId s))"
        using others c_lt c_notin step(3) by simp
      have "nextId s \<notin> set cells" using lt by auto
      then have b: "nextSibling_info (nextId s) (tree s') = nextSibling_info c (tree s)"
        using others step(4) by simp
      have "nextId s < nextId s'" using mono by simp
      then show ?thesis using True a b by blast
    next
      case False
      then have in_cells: "c' \<in> set cells" using c' by simp
      then obtain k where k: "nextId ?s1 \<le> k" "k < nextId s'"
        "nextSibling_info c' (tree s') = info (clipboardButton (idf c') k)"
        "nextSibling_info k (tree s') = nextSibling_info c' (tree ?s1)"
        using buttons by blast
      have "c' < nextId s" using lt in_cells by simp
      then have "nextSibling_info c' (tree ?s1) = nextSibling_info c' (tree s)"
        using step(5) False by simp
      moreover have "nextId s \<le> k" using k(1) by simp
      ultimately show ?thesis using k by metis
    qed
  qed
  have g6: "\<forall>n < nextId s. n \<notin> set (c # cells) \<longrightarrow>
               nextSibling_info n (tree s') = nextSibling_info n (tree s)"
    using others step(5) by simp
  have g7: "\<forall>n < nextId s. lookup n (tree s') = lookup n (tree s)"
    using looks step(6) by simp
  have g8: "\<forall>n. has_parent n (tree s) \<longrightarrow> has_parent n (tree s')"
    using pars step(7) by blast
  have g9: "\<forall>x. (\<forall>c' \<in> set (c # cells). x \<noteq> ''copy-button-'' @ idf c') \<longrightarrow> x \<noteq> ''title'' \<longrightarrow>
               getElementById x (tree s') = getElementById x (tree s)"
    using byid step(8) by simp
  show ?case
    using g1 fr' g3 g4 g5 g6 g7 g8 g9 by blast
qed

lemma info_clipboardButton:
  "info (clipboardButton ident k) =
     Some (EInfo k ''a'' [(''id'', ''copy-button-'' @ ident), (''data-tooltip'', ''Copy''),
                          (''data-clipboard-target'', ''#'' @ ident)]
             [''btn'', ''copybtn'', ''o-tooltip--left''])"
  by (simp add: clipboardButton_def)

lemma is_copy_button_clipboardButton:
  "info (clipboardButton ident k) = Some e \<Longrightarrow> is_copy_button ident e"
  by (auto simp: info_clipboardButton is_copy_button_def)

lemma codeCellId_not_dash: "codeCellId i \<noteq> CHR ''-'' # x"
  by (simp add: codeCellId_def)

text \<open>One run over cells that are ready: every cell gets a new button right after it.\<close>

lemma copy_run:
  assumes "codeCells_ready cells s"
  shows "\<exists>s'. forEach cells copyButtonFor s = Done s' \<and> codeCells_ready cells s' \<and>
           s' = s\<lparr>tree := tree s', nextId := nextId s'\<rparr> \<and>
           (\<forall>i < length cells. \<exists>k. nextId s \<le> k \<and> k < nextId s' \<and>
               nextSibling_info (cells ! i) (tree s') = info (clipboardButton (codeCellId i) k) \<and>
               nextSibling_info k (tree s') = nextSibling_info (cells ! i) (tree s))"
proof -
  define idf where "idf = (\<lambda>c. the (getAttribute c ''id'' (tree s)))"
  have fr: "fresh s" and d: "distinct cells"
    and par: "\<forall>c \<in> set cells. has_parent c (tree s)"
    and asg: "\<forall>i < length cells. getAttribute (cells ! i) ''id'' (tree s) = Some (codeCellId i)"
    and grd: "\<forall>i < length cells. getElementById (''copy-button'' @ codeCellId i) (tree s) = None"
    and pe: "pageElements s ''codeCells'' = Some cells" and cj: "clipboardJS s"
    using assms by (simp_all add: codeCells_ready_def list_all_iff assigned_def)
  have idf: "idf (cells ! i) = codeCellId i" if "i < length cells" for i
    using asg that by (simp add: idf_def)
  have a4: "\<forall>c \<in> set cells. getAttribute c ''id'' (tree s) = Some (idf c)"
    using asg idf by (metis in_set_conv_nth)
  have a5: "\<forall>c \<in> set cells. getElementById (''copy-button'' @ idf c) (tree s) = None"
    using grd idf by (metis in_set_conv_nth)
  have a6: "\<forall>c \<in> set cells. \<forall>c' \<in> set cells. idf c \<noteq> CHR ''-'' # idf c'"
    using idf codeCellId_not_dash by (metis in_set_conv_nth)
  obtain s' where run: "forEach cells copyButtonFor s = Done s'"
    and fr': "fresh s'"
    and frame: "s' = s\<lparr>tree := tree s', nextId := nextId s'\<rparr>"
    and buttons: "\<forall>c \<in> set cells. \<exists>k. nextId s \<le> k \<and> k < nextId s' \<and>
               nextSibling_info c (tree s') = info (clipboardButton (idf c) k) \<and>
               nextSibling_info k (tree s') = nextSibling_info c (tree s)"
    and looks: "\<forall>n < nextId s. lookup n (tree s') = lookup n (tree s)"
    and pars: "\<forall>n. has_parent n (tree s) \<longrightarrow> has_parent n (tree s')"
    and byid: "\<forall>x. (\<forall>c \<in> set cells. x \<noteq> ''copy-button-'' @ idf c) \<longrightarrow> x \<noteq> ''title'' \<longrightarrow>
               getElementById x (tree s') = getElementById x (tree s)"
    using copy_loop[OF fr d par a4 a5 a6] by blast
  have rest: "pageElements s' = pageElements s" "clipboardJS s' = clipboardJS s"
  proof -
    obtain t k where "s' = s\<lparr>tree := t, nextId := k\<rparr>" using frame by blast
    then show "pageElements s' = pageElements s" "clipboardJS s' = clipboardJS s" by simp_all
  qed
  have asg': "\<forall>i < length cells. getAttribute (cells ! i) ''id'' (tree s') = Some (codeCellId i)"
  proof (intro allI impI)
    fix i assume i: "i < length cells"
    then have "cells ! i < nextId s" using par fr has_parent_fresh by simp
    then show "getAttribute (cells ! i) ''id'' (tree s') = Some (codeCellId i)"
      using looks asg i by (simp add: getAttribute_def)
  qed
  have grd': "\<forall>i < length cells. getElementById (''copy-button'' @ codeCellId i) (tree s') = None"
  proof (intro allI impI)
    fix i assume i: "i < length cells"
    have "\<forall>c \<in> set cells. ''copy-button'' @ codeCellId i \<noteq> ''copy-button-'' @ idf c"
      using codeCellId_not_dash by simp
    moreover have "''copy-button'' @ codeCellId i \<noteq> ''title''" by simp
    ultimately show "getElementById (''copy-button'' @ codeCellId i) (tree s') = None"
      using byid grd i by simp
  qed
  have ready': "codeCells_ready cells s'"
    using cj fr' pe d pars par asg' grd' rest
    by (simp add: codeCells_ready_def list_all_iff assigned_def)
  have "\<forall>i < length cells. \<exists>k. nextId s \<le> k \<and> k < nextId s' \<and>
               nextSibling_info (cells ! i) (tree s') = info (clipboardButton (codeCellId i) k) \<and>
               nextSibling_info k (tree s') = nextSibling_info (cells ! i) (tree s)"
    using buttons idf by (metis nth_mem)
  then show ?thesis using run ready' frame by blast
qed

lemma newClipboard_tree: "tree (state_of (newClipboard s)) = tree s"
  by (simp add: newClipboard_def addEventListener_def)

lemma addCopy_tree:
  assumes "clipboardJS s" and "pageElements s ''codeCells'' = Some cells"
    and "forEach cells copyButtonFor s = Done s'"
  shows "tree (state_of (addCopyButtonToCodeCells s)) = tree s'"
  using assms by (simp add: addCopyButtonToCodeCells_def newClipboard_tree)

text \<open>
  Where the existence check finds nothing: after \<^verbatim>\<open>addCopyButtonToCodeCells\<close> has run with
  ClipboardJS defined, the next sibling of every stored code cell is a copy button (an
  \<^verbatim>\<open>a.copybtn\<close>) whose \<^verbatim>\<open>data-clipboard-target\<close> is \<^verbatim>\<open>#\<close> followed by the id of that cell.
\<close>

lemma copy_button_inserted:
  assumes "codeCells_ready cells s"
  shows "\<forall>i < length cells.
           \<exists>e. nextSibling_info (cells ! i) (tree (state_of (addCopyButtonToCodeCells s))) = Some e \<and>
               is_copy_button (codeCellId i) e \<and>
               getAttribute (cells ! i) ''id'' (tree (state_of (addCopyButtonToCodeCells s)))
                 = Some (codeCellId i)"
proof (intro allI impI)
  fix i assume i: "i < length cells"
  obtain s' where run: "forEach cells copyButtonFor s = Done s'"
    and ready': "codeCells_ready cells s'"
    and buttons: "\<forall>i < length cells. \<exists>k. nextId s \<le> k \<and> k < nextId s' \<and>
               nextSibling_info (cells ! i) (tree s') = info (clipboardButton (codeCellId i) k) \<and>
               nextSibling_info k (tree s') = nextSibling_info (cells ! i) (tree s)"
    using copy_run[OF assms] by blast
  have t: "tree (state_of (addCopyButtonToCodeCells s)) = tree s'"
    using assms run by (intro addCopy_tree) (simp_all add: codeCells_ready_def)
  obtain k where "nextSibling_info (cells ! i) (tree s') = info (clipboardButton (codeCellId i) k)"
    using buttons i by blast
  moreover have "getAttribute (cells ! i) ''id'' (tree s') = Some (codeCellId i)"
    using ready' i by (simp add: codeCells_ready_def assigned_def)
  ultimately show "\<exists>e. nextSibling_info (cells ! i) (tree (state_of (addCopyButtonToCodeCells s))) = Some e \<and>
               is_copy_button (codeCellId i) e \<and>
               getAttribute (cells ! i) ''id'' (tree (state_of (addCopyButtonToCodeCells s)))
                 = Some (codeCellId i)"
    unfolding t by (simp add: info_clipboardButton is_copy_button_def)
qed

lemma addCopy_run:
  assumes "codeCells_ready cells s" and "hasAddEventListener s"
  shows "\<exists>s'. addCopyButtonToCodeCells s = Done s' \<and> codeCells_ready cells s' \<and>
           hasAddEventListener s' \<and>
           (\<forall>i < length cells. \<exists>k. nextId s \<le> k \<and> k < nextId s' \<and>
               nextSibling_info (cells ! i) (tree s') = info (clipboardButton (codeCellId i) k) \<and>
               nextSibling_info k (tree s') = nextSibling_info (cells ! i) (tree s))"
proof -
  obtain u where run: "forEach cells copyButtonFor s = Done u"
    and ready: "codeCells_ready cells u"
    and frame: "u = s\<lparr>tree := tree u, nextId := nextId u\<rparr>"
    and buttons: "\<forall>i < length cells. \<exists>k. nextId s \<le> k \<and> k < nextId u \<and>
               nextSibling_info (cells ! i) (tree u) = info (clipboardButton (codeCellId i) k) \<and>
               nextSibling_info k (tree u) = nextSibling_info (cells ! i) (tree s)"
    using copy_run[OF assms(1)] by blast
  have hu: "hasAddEventListener u"
  proof -
    obtain t k where "u = s\<lparr>tree := t, nextId := k\<rparr>" using frame by blast
    then show ?thesis using assms(2) by simp
  qed
  have "\<exists>s'. newClipboard u = Done s' \<and> tree s' = tree u \<and> nextId s' = nextId u \<and>
          pageElements s' = pageElements u \<and> clipboardJS s' = clipboardJS u \<and>
          hasAddEventListener s'"
    using hu by (simp add: newClipboard_def addEventListener_def)
  then obtain s' where s': "newClipboard u = Done s'" and t: "tree s' = tree u"
    and n: "nextId s' = nextId u"
    and pe: "pageElements s' = pageElements u" and cj: "clipboardJS s' = clipboardJS u"
    and h: "hasAddEventListener s'"
    by blast
  have "addCopyButtonToCodeCells s = Done s'"
    using assms(1) run s' by (simp add: addCopyButtonToCodeCells_def codeCells_ready_def)
  moreover have "codeCells_ready cells s'"
    using ready t n pe cj by (simp add: codeCells_ready_def fresh_def)
  ultimately show ?thesis using buttons h t n by auto
qed

text \<open>
  Claim C9, on a page that has no element with the id \<^verbatim>\<open>copy-button\<close> + id of a stored code
  cell. A first run inserts a button after every stored code cell; the lookup of
  \<^verbatim>\<open>copy-button\<close> + id still finds nothing after it, since the buttons carry the id
  \<^verbatim>\<open>copy-button-\<close> + id; and a second run inserts a new button after every stored code cell,
  right before the button of the first run.
\<close>

theorem copy_buttons_pile_up:
  assumes "codeCells_ready cells s" and "hasAddEventListener s"
  shows "\<exists>s1 s2. addCopyButtonToCodeCells s = Done s1 \<and> addCopyButtonToCodeCells s1 = Done s2 \<and>
           (\<forall>i < length cells.
              getElementById (''copy-button'' @ codeCellId i) (tree s1) = None \<and>
              (\<exists>k1 k2. k1 < k2 \<and>
                 nextSibling_info (cells ! i) (tree s1) = info (clipboardButton (codeCellId i) k1) \<and>
                 nextSibling_info (cells ! i) (tree s2) = info (clipboardButton (codeCellId i) k2) \<and>
                 nextSibling_info k2 (tree s2) = info (clipboardButton (codeCellId i) k1)))"
proof -
  obtain s1 where r1: "addCopyButtonToCodeCells s = Done s1" and ready1: "codeCells_ready cells s1"
    and h1: "hasAddEventListener s1"
    and b1: "\<forall>i < length cells. \<exists>k. nextId s \<le> k \<and> k < nextId s1 \<and>
               nextSibling_info (cells ! i) (tree s1) = info (clipboardButton (codeCellId i) k) \<and>
               nextSibling_info k (tree s1) = nextSibling_info (cells ! i) (tree s)"
    using addCopy_run[OF assms] by blast
  obtain s2 where r2: "addCopyButtonToCodeCells s1 = Done s2"
    and b2: "\<forall>i < length cells. \<exists>k. nextId s1 \<le> k \<and> k < nextId s2 \<and>
               nextSibling_info (cells ! i) (tree s2) = info (clipboardButton (codeCellId i) k) \<and>
               nextSibling_info k (tree s2) = nextSibling_info (cells ! i) (tree s1)"
    using addCopy_run[OF ready1 h1] by blast
  have "\<forall>i < length cells.
              getElementById (''copy-button'' @ codeCellId i) (tree s1) = None \<and>
              (\<exists>k1 k2. k1 < k2 \<and>
                 nextSibling_info (cells ! i) (tree s1) = info (clipboardButton (codeCellId i) k1) \<and>
                 nextSibling_info (cells ! i) (tree s2) = info (clipboardButton (codeCellId i) k2) \<and>
                 nextSibling_info k2 (tree s2) = info (clipboardButton (codeCellId i) k1))"
  proof (intro allI impI)
    fix i assume i: "i < length cells"
    obtain k1 where k1: "k1 < nextId s1"
      "nextSibling_info (cells ! i) (tree s1) = info (clipboardButton (codeCellId i) k1)"
      using b1 i by blast
    obtain k2 where k2: "nextId s1 \<le> k2"
      "nextSibling_info (cells ! i) (tree s2) = info (clipboardButton (codeCellId i) k2)"
      "nextSibling_info k2 (tree s2) = nextSibling_info (cells ! i) (tree s1)"
      using b2 i by blast
    have "k1 < k2" using k1(1) k2(1) by simp
    moreover have "getElementById (''copy-button'' @ codeCellId i) (tree s1) = None"
      using ready1 i by (simp add: codeCells_ready_def)
    ultimately show "getElementById (''copy-button'' @ codeCellId i) (tree s1) = None \<and>
              (\<exists>k1 k2. k1 < k2 \<and>
                 nextSibling_info (cells ! i) (tree s1) = info (clipboardButton (codeCellId i) k1) \<and>
                 nextSibling_info (cells ! i) (tree s2) = info (clipboardButton (codeCellId i) k2) \<and>
                 nextSibling_info k2 (tree s2) = info (clipboardButton (codeCellId i) k1))"
      using k1(2) k2(2,3) by auto
  qed
  then show ?thesis using r1 r2 by blast
qed

lemma codeState_ready: "codeCells_ready [3] codeState"
  by (simp add: codeCells_ready_def codeState_def sampleState_def codePage_def fresh_def
        has_parent_def assigned_def getAttribute_def lookup_def getElementById_def codeCellId_0)

text \<open>
  Claim C7 fails on a page that has an element with the id \<^verbatim>\<open>copy-buttoncodecell0\<close>, which is
  no copy button. The buttons the routine inserts carry the id \<^verbatim>\<open>copy-button-\<close> + id, and no
  element of the page has the id \<^verbatim>\<open>copy-button-codecell0\<close>; the existence check looks up
  \<^verbatim>\<open>copy-button\<close> + id, finds the other element, and the code cell gets no button: the run
  returns and has changed nothing in the tree.
\<close>

theorem copy_button_check_misses_hyphen:
  "findCodeCells (foreignState\<lparr>pageElements := Map.empty\<rparr>) = Done foreignState \<and>
   clipboardJS foreignState \<and>
   getAttribute 3 ''id'' (tree foreignState) = Some ''codecell0'' \<and>
   map_option eattrs (info (clipboardButton ''codecell0'' k))
     = Some [(''id'', ''copy-button-codecell0''), (''data-tooltip'', ''Copy''),
             (''data-clipboard-target'', ''#codecell0'')] \<and>
   getElementById ''copy-button-codecell0'' (tree foreignState) = None \<and>
   getElementById (''copy-button'' @ ''codecell0'') (tree foreignState) = Some 4 \<and>
   addCopyButtonToCodeCells foreignState
     = Done (foreignState\<lparr>docListeners := [(''turbolinks:before-visit'', ClipboardDestroy 0)],
                           clipboards := [0], nextClipboard := 1\<rparr>) \<and>
   nextSibling 3 (tree foreignState) = None"
  by (simp add: foreignState_def sampleState_def foreignPage_def findCodeCells_def
        querySelectorAll_def codeCellSelector_def positions_def matches_any_def self_def
        tag_sel_def tag_class_def assignId_def setAttribute_def setAttribute_tree_def at_node_def
        codeCellId_0 enumerate_eq_zip addCopyButtonToCodeCells_def copyButtonFor_def
        getAttribute_def lookup_def getElementById_def newClipboard_def addEventListener_def
        Let_def clipboardButton_def)

lemma hasAddEventListener_codeState: "hasAddEventListener codeState"
  by (simp add: codeState_def sampleState_def)

theorem copy_buttons_pile_up_witness:
  "codeCells_ready [3] codeState \<and> hasAddEventListener codeState \<and>
   (\<exists>s1 s2 k1 k2. addCopyButtonToCodeCells codeState = Done s1 \<and>
       addCopyButtonToCodeCells s1 = Done s2 \<and> k1 < k2 \<and>
       nextSibling_info 3 (tree s2) = info (clipboardButton ''codecell0'' k2) \<and>
       nextSibling_info k2 (tree s2) = info (clipboardButton ''codecell0'' k1))"
proof -
  obtain s1 s2 where r: "addCopyButtonToCodeCells codeState = Done s1"
    "addCopyButtonToCodeCells s1 = Done s2"
    and b: "\<forall>i < length [3::nat].
              getElementById (''copy-button'' @ codeCellId i) (tree s1) = None \<and>
              (\<exists>k1 k2. k1 < k2 \<and>
                 nextSibling_info ([3] ! i) (tree s1) = info (clipboardButton (codeCellId i) k1) \<and>
                 nextSibling_info ([3] ! i) (tree s2) = info (clipboardButton (codeCellId i) k2) \<and>
                 nextSibling_info k2 (tree s2) = info (clipboardButton (codeCellId i) k1))"
    using copy_buttons_pile_up[OF codeState_ready hasAddEventListener_codeState] by blast
  from b have "\<exists>k1 k2. k1 < k2 \<and>
                 nextSibling_info 3 (tree s2) = info (clipboardButton ''codecell0'' k2) \<and>
                 nextSibling_info k2 (tree s2) = info (clipboardButton ''codecell0'' k1)"
    by (auto simp: codeCellId_0)
  then show ?thesis
    using r codeState_ready hasAddEventListener_codeState by blast
qed

text \<open>
  Where an element that is no copy button has the id \<^verbatim>\<open>copy-buttoncodecell0\<close>, the check does
  match: two runs return and neither inserts a button.
\<close>

theorem copy_buttons_pile_up_counterexample:
  "clipboardJS foreignState \<and> pageElements foreignState ''codeCells'' = Some [3] \<and>
   getElementById (''copy-button'' @ ''codecell0'') (tree foreignState) = Some 4 \<and>
   (case addCopyButtonToCodeCells foreignState of
      Done s1 \<Rightarrow>
        tree s1 = tree foreignState \<and>
        (case addCopyButtonToCodeCells s1 of
           Done s2 \<Rightarrow> tree s2 = tree foreignState \<and> nextSibling 3 (tree s2) = None
         | Throws e s2 \<Rightarrow> False)
    | Throws e s1 \<Rightarrow> False)"
  by (simp add: foreignState_def sampleState_def foreignPage_def addCopyButtonToCodeCells_def
        copyButtonFor_def getAttribute_def lookup_def getElementById_def newClipboard_def
        addEventListener_def Let_def)

section \<open>What the routines depend on\<close>

lemmas same_defs = same_page_def same_document_def same_libraries_def

lemma then_do_rel:
  assumes "same_outcome r r'" and "\<And>u u'. same_page u u' \<Longrightarrow> same_outcome (g u) (g' u')"
  shows "same_outcome (then_do r g) (then_do r' g')"
  using assms by (cases r; cases r') simp_all

lemma forEach_rel:
  assumes "\<And>x u u'. same_page u u' \<Longrightarrow> same_outcome (f x u) (f x u')" and "same_page s s'"
  shows "same_outcome (forEach xs f s) (forEach xs f s')"
  using assms(2)
proof (induction xs arbitrary: s s')
  case Nil
  then show ?case by simp
next
  case (Cons x xs)
  show ?case
    unfolding forEach.simps
    by (rule then_do_rel) (simp_all add: assms(1) Cons)
qed

lemma assignId_rel: "same_page u u' \<Longrightarrow> same_outcome (assignId f ic u) (assignId f ic u')"
  by (simp add: assignId_def setAttribute_def same_defs)

lemma disableTurbolinks_rel:
  "same_page u u' \<Longrightarrow> same_outcome (disableTurbolinks n u) (disableTurbolinks n u')"
  by (simp add: disableTurbolinks_def setAttribute_def same_defs)

lemma copyButtonFor_rel:
  "same_page u u' \<Longrightarrow> same_outcome (copyButtonFor n u) (copyButtonFor n u')"
  by (simp add: copyButtonFor_def Let_def insertAdjacentHTML_afterend_def same_defs)

lemma newClipboard_rel: "same_page u u' \<Longrightarrow> same_outcome (newClipboard u) (newClipboard u')"
  by (simp add: newClipboard_def addEventListener_def same_defs)

lemma setCodeCellVisibility_rel:
  "same_page u u' \<Longrightarrow>
     same_outcome (setCodeCellVisibility n kind u) (setCodeCellVisibility n kind u')"
  by (simp add: setCodeCellVisibility_def Let_def classList_add_def classList_remove_def same_defs
           split: option.splits)

lemma hideItem_rel: "same_page u u' \<Longrightarrow> same_outcome (hideItem n u) (hideItem n u')"
  unfolding hideItem_def
  by (rule then_do_rel) (simp_all add: setCodeCellVisibility_rel, simp add: same_defs)

lemma hideButtonFor_rel:
  "same_page u u' \<Longrightarrow> same_outcome (hideButtonFor n u) (hideButtonFor n u')"
  by (simp add: hideButtonFor_def Let_def insertAdjacentHTML_beforeend_def
        node_addEventListener_def same_defs split: option.splits)

lemma findCodeCells_rel: "same_page s s' \<Longrightarrow> same_outcome (findCodeCells s) (findCodeCells s')"
  unfolding findCodeCells_def Let_def
  by (simp add: same_defs) (rule forEach_rel, simp_all add: assignId_rel same_defs)

lemma findInputCells_rel: "same_page s s' \<Longrightarrow> same_outcome (findInputCells s) (findInputCells s')"
  unfolding findInputCells_def Let_def
  by (simp add: same_defs) (rule forEach_rel, simp_all add: assignId_rel same_defs)

lemma setTimeout_rel: "same_page s s' \<Longrightarrow> same_page (setTimeout cb ms s) (setTimeout cb ms s')"
  by (simp add: setTimeout_def same_defs)

lemma addCopy_rel:
  assumes "same_page s s'"
  shows "same_outcome (addCopyButtonToCodeCells s) (addCopyButtonToCodeCells s')"
proof -
  have eq: "clipboardJS s = clipboardJS s'" "pageElements s = pageElements s'"
    using assms by (simp_all add: same_defs)
  show ?thesis
  proof (cases "clipboardJS s")
    case False
    then show ?thesis using eq assms by (simp add: addCopyButtonToCodeCells_def setTimeout_rel)
  next
    case True
    show ?thesis
    proof (cases "pageElements s ''codeCells''")
      case None
      then show ?thesis using True eq assms by (simp add: addCopyButtonToCodeCells_def)
    next
      case (Some cells)
      have "same_outcome (then_do (forEach cells copyButtonFor s) newClipboard)
              (then_do (forEach cells copyButtonFor s') newClipboard)"
        by (intro then_do_rel forEach_rel copyButtonFor_rel newClipboard_rel assms)
      then show ?thesis using True Some eq by (simp add: addCopyButtonToCodeCells_def)
    qed
  qed
qed

lemma addHideButton_rel:
  assumes "same_page s s'"
  shows "same_outcome (addHideButton s) (addHideButton s')"
proof -
  have eq: "tree s = tree s'" "pageElements s = pageElements s'"
    using assms by (simp_all add: same_defs)
  show ?thesis
  proof (cases "querySelector hideButtonGuard (tree s) \<noteq> None")
    case True
    then show ?thesis using eq assms by (simp add: addHideButton_def)
  next
    case False
    show ?thesis
    proof (cases "pageElements s ''inputCells''")
      case None
      then show ?thesis using False eq assms by (simp add: addHideButton_def)
    next
      case (Some cells)
      have "same_outcome (forEach cells hideButtonFor s) (forEach cells hideButtonFor s')"
        by (intro forEach_rel hideButtonFor_rel assms)
      then show ?thesis using False Some eq by (simp add: addHideButton_def)
    qed
  qed
qed

lemma initHiddenCells_rel:
  assumes "same_page s s'"
  shows "same_outcome (initHiddenCells s) (initHiddenCells s')"
  unfolding initHiddenCells_def
proof (rule then_do_rel[OF addHideButton_rel[OF assms]])
  fix u u' assume uu: "same_page u u'"
  then have "tree u = tree u'" by (simp add: same_defs)
  then show "same_outcome (forEach (querySelectorAll hideButtonGuard (tree u)) hideItem u)
              (forEach (querySelectorAll hideButtonGuard (tree u')) hideItem u')"
    using uu by (simp add: forEach_rel hideItem_rel)
qed

lemma libraryCall_rel: "same_page s s' \<Longrightarrow> same_page (libraryCall f s) (libraryCall f s')"
  by (simp add: libraryCall_def same_defs)

lemma initAnchors_rel:
  assumes "same_page s s'"
  shows "same_outcome (initAnchors s) (initAnchors s')"
proof (cases "anchors s")
  case None
  then show ?thesis using assms setTimeout_rel[OF assms]
    by (simp add: initAnchors_def same_defs)
next
  case (Some add)
  have a: "anchors s' = Some add" using Some assms by (simp add: same_defs)
  have l: "same_page (libraryCall add s) (libraryCall add s')"
    using assms by (rule libraryCall_rel)
  then have t: "tree (libraryCall add s) = tree (libraryCall add s')" by (simp add: same_defs)
  show ?thesis
    using Some a by (simp add: initAnchors_def Let_def t forEach_rel disableTurbolinks_rel l)
qed

lemma initToc_rel:
  assumes "same_page s s'"
  shows "same_outcome (initToc s) (initToc s')"
proof (cases "tocbot s")
  case None
  then show ?thesis using assms setTimeout_rel[OF assms]
    by (simp add: initToc_def same_defs)
next
  case (Some init)
  have a: "tocbot s' = Some init" using Some assms by (simp add: same_defs)
  have t: "tree s = tree s'" using assms by (simp add: same_defs)
  let ?first = "\<lambda>s. if querySelectorAll [Simple (class_sel ''tag_full_width''),
                                  Simple (class_sel ''tag_popout'')] (tree s) = []
             then (case querySelector [Simple (tag_class ''nav'' ''onthispage'')] (tree s) of
                     None \<Rightarrow> Throws TypeError s
                   | Some nav \<Rightarrow> Done (classList_add nav ''no_sidebar_content'' s))
             else Done s"
  let ?rest = "\<lambda>s0. let s1 = libraryCall init s0
               in forEach (querySelectorAll
                             [Descendant (Simple (class_sel ''toc-list-item'')) (tag_sel ''a'')]
                             (tree s1))
                    disableTurbolinks s1"
  have first: "same_outcome (?first s) (?first s')"
    using assms t by (auto simp: classList_add_def same_defs split: option.splits)
  have rest: "same_outcome (?rest u) (?rest u')" if "same_page u u'" for u u'
  proof -
    have l: "same_page (libraryCall init u) (libraryCall init u')"
      using that by (rule libraryCall_rel)
    then have "tree (libraryCall init u) = tree (libraryCall init u')" by (simp add: same_defs)
    then show ?thesis by (simp add: Let_def forEach_rel disableTurbolinks_rel l)
  qed
  have "same_outcome (then_do (?first s) ?rest) (then_do (?first s') ?rest)"
    using first rest by (rule then_do_rel)
  then show ?thesis using Some a by (simp add: initToc_def)
qed

lemma new_timers_frame:
  "timers (state_of r) = timers s \<Longrightarrow> new_timers s r = []"
  by (simp add: new_timers_def)

lemma new_timers_poll:
  "r = Done (s\<lparr>timers := timers s @ ts\<rparr>) \<Longrightarrow> new_timers s r = ts"
  by (simp add: new_timers_def)

lemma new_timers_addCopy:
  "new_timers s (addCopyButtonToCodeCells s)
     = (if clipboardJS s then [] else [(AddCopyButtonToCodeCells, 250)])"
  by (simp add: new_timers_frame addCopy_work_timers)
     (simp add: new_timers_def addCopyButtonToCodeCells_def setTimeout_def)

lemma new_timers_initAnchors:
  "new_timers s (initAnchors s) = (if anchors s = None then [(InitAnchors, 250)] else [])"
proof (cases "anchors s")
  case None
  then show ?thesis by (simp add: new_timers_def initAnchors_def setTimeout_def)
next
  case (Some a)
  then show ?thesis using initAnchors_work_timers[OF Some] by (simp add: new_timers_frame)
qed

lemma new_timers_initToc:
  "new_timers s (initToc s) = (if tocbot s = None then [(InitToc, 250)] else [])"
proof (cases "tocbot s")
  case None
  then show ?thesis by (simp add: new_timers_def initToc_def setTimeout_def)
next
  case (Some a)
  then show ?thesis using initToc_work_timers[OF Some] by (simp add: new_timers_frame)
qed

text \<open>
  Claim C1, with \<open>pageElements\<close> among what a routine may depend on: started in two
  states with the same document, the same libraries and the same \<open>pageElements\<close>, each
  of the six routines ends the same way (returns or throws the same error), in states
  that again agree on the document, the libraries and \<open>pageElements\<close>, and schedules the
  same timers. Nothing it does depends on the pending timers or on \<open>hideLink\<close>.
\<close>

theorem routines_depend_on_page_only:
  assumes "r \<in> set routines" and "same_page s s'"
  shows "same_outcome (r s) (r s') \<and> new_timers s (r s) = new_timers s' (r s')"
proof -
  have libs: "clipboardJS s = clipboardJS s'" "anchors s = anchors s'" "tocbot s = tocbot s'"
    using assms(2) by (simp_all add: same_defs)
  consider "r = findCodeCells" | "r = findInputCells" | "r = addCopyButtonToCodeCells"
    | "r = initHiddenCells" | "r = initAnchors" | "r = initToc"
    using assms(1) by (auto simp: routines_def)
  then show ?thesis
  proof cases
    case 1
    then show ?thesis
      using findCodeCells_rel[OF assms(2)]
      by (simp add: new_timers_frame findCodeCells_frame)
  next
    case 2
    then show ?thesis
      using findInputCells_rel[OF assms(2)]
      by (simp add: new_timers_frame findInputCells_frame)
  next
    case 3
    then show ?thesis
      using addCopy_rel[OF assms(2)] libs by (simp add: new_timers_addCopy)
  next
    case 4
    then show ?thesis
      using initHiddenCells_rel[OF assms(2)]
      by (simp add: new_timers_frame initHiddenCells_frame)
  next
    case 5
    then show ?thesis
      using initAnchors_rel[OF assms(2)] libs by (simp add: new_timers_initAnchors)
  next
    case 6
    then show ?thesis
      using initToc_rel[OF assms(2)] libs by (simp add: new_timers_initToc)
  qed
qed

text \<open>
  The document and the libraries alone do not decide what a routine does: with the same
  document, \<^verbatim>\<open>addCopyButtonToCodeCells\<close> inserts a button or none, as \<open>pageElements\<close> says.
\<close>

theorem routines_depend_on_page_only_counterexample:
  "same_document codeState noCellsState \<and> same_libraries codeState noCellsState \<and>
   tree (state_of (addCopyButtonToCodeCells codeState))
     \<noteq> tree (state_of (addCopyButtonToCodeCells noCellsState))"
  by (simp add: same_document_def same_libraries_def noCellsState_def codeState_def
        sampleState_def codePage_def addCopyButtonToCodeCells_def copyButtonFor_def
        getAttribute_def lookup_def getElementById_def insertAdjacentHTML_afterend_def
        has_parent_def newClipboard_def addEventListener_def Let_def)

theorem routines_depend_on_page_only_witness:
  "addCopyButtonToCodeCells \<in> set routines \<and> same_page codeState laterState \<and>
   same_outcome (addCopyButtonToCodeCells codeState) (addCopyButtonToCodeCells laterState) \<and>
   new_timers codeState (addCopyButtonToCodeCells codeState)
     = new_timers laterState (addCopyButtonToCodeCells laterState)"
proof -
  have r: "addCopyButtonToCodeCells \<in> set routines" by (simp add: routines_def)
  have p: "same_page codeState laterState"
    by (simp add: same_page_def same_document_def same_libraries_def laterState_def)
  show ?thesis using routines_depend_on_page_only[OF r p] r p by simp
qed

text \<open>
  Claim C2 on the sample page: \<^verbatim>\<open>addHideButton\<close> assigns the undeclared \<^verbatim>\<open>hideLink\<close>, so
  after \<^verbatim>\<open>initHiddenCells\<close> the script has a second global, which holds the label of the
  last hide button.
\<close>

theorem hideLink_leaks:
  "hideLink (state_of (findInputCells sampleState)) = None \<and>
   hideLink (state_of (initHiddenCells (state_of (findInputCells sampleState)))) = Some 19"
  by code_simp

section \<open>Positions\<close>

lemma info_append_children [simp]: "info (append_children t new n) = info n"
  by (cases n) simp_all

lemma info_map_info: "info (map_info g n) = map_option g (info n)"
  by (cases n) (simp_all split: einfo.splits)

lemma annot_children_append:
  "annot_children up prevs (xs @ ys)
     = annot_children up prevs xs @ annot_children up (rev (List.map_filter info xs) @ prevs) ys"
proof (induction xs arbitrary: prevs)
  case Nil
  then show ?case by (simp add: List.map_filter_simps)
next
  case (Cons x xs)
  then show ?case by (cases "info x") (simp_all add: List.map_filter_simps)
qed

lemma self_in_annot:
  "p \<in> set (annot up prevs n) \<Longrightarrow> self p \<in> set (infos n)"
  "p \<in> set (annot_children up prevs ns) \<Longrightarrow> self p \<in> set (concat (map infos ns))"
  using self_annot(1)[of up prevs n] self_annot(2)[of up prevs ns]
  by (metis imageI list.set_map)+

text \<open>Appending children leaves every match outside the new nodes where it was.\<close>

lemma filter_annot_append_children:
  assumes "\<And>p. Q p \<Longrightarrow> self p \<notin> set (concat (map infos new))"
  shows "filter Q (annot up prevs (append_children t new n)) = filter Q (annot up prevs n)"
    and "filter Q (annot_children up prevs (map (append_children t new) ns))
           = filter Q (annot_children up prevs ns)"
proof (induction up prevs n and up prevs ns rule: annot_annot_children.induct)
  case (1 up prevs s)
  then show ?case by simp
next
  case (2 up prevs i tg a c cs)
  let ?P = "(EInfo i tg a c, prevs) # up"
  show ?case
  proof (cases "i = t")
    case True
    have "\<not> Q p" if "p \<in> set (annot_children ?P (rev (List.map_filter info cs) @ []) new)" for p
      using assms[of p] self_in_annot(2)[OF that] by blast
    then have "filter Q (annot_children ?P (rev (List.map_filter info cs) @ []) new) = []"
      by (simp add: filter_empty_conv)
    then show ?thesis using True by (simp add: annot_children_append)
  next
    case False
    then show ?thesis using 2 by simp
  qed
next
  case (3 up prevs)
  then show ?case by simp
next
  case (4 up prevs n ns)
  then show ?case by simp
qed

lemma filter_positions_append_children:
  assumes "\<And>p. Q p \<Longrightarrow> self p \<notin> set (concat (map infos new))"
  shows "filter Q (positions (append_children t new d)) = filter Q (positions d)"
  unfolding positions_def using assms by (rule filter_annot_append_children(1))

text \<open>The positions of the appended nodes, under the element they were appended to.\<close>

lemma new_positions_annot:
  "P \<in> set (annot up prevs n) \<Longrightarrow> enid (self P) = t \<Longrightarrow> distinct (map enid (infos n)) \<Longrightarrow>
           \<exists>prevs1. set (annot_children P prevs1 new) \<subseteq> set (annot up prevs (append_children t new n))"
  "P \<in> set (annot_children up prevs ns) \<Longrightarrow> enid (self P) = t \<Longrightarrow>
     distinct (map enid (concat (map infos ns))) \<Longrightarrow>
           \<exists>prevs1. set (annot_children P prevs1 new)
                      \<subseteq> set (annot_children up prevs (map (append_children t new) ns))"
proof (induction up prevs n and up prevs ns rule: annot_annot_children.induct)
  case (1 up prevs s)
  then show ?case by simp
next
  case (2 up prevs i tg a c cs)
  let ?P = "(EInfo i tg a c, prevs) # up"
  show ?case
  proof (cases "i = t")
    case True
    have "P = ?P"
    proof (rule ccontr)
      assume "P \<noteq> ?P"
      then have "P \<in> set (annot_children ?P [] cs)" using 2(2) by simp
      then have "self P \<in> set (concat (map infos cs))" by (rule self_in_annot(2))
      then have "t \<in> enid ` set (concat (map infos cs))" using 2(3) by force
      then show False using 2(4) True by auto
    qed
    then show ?thesis using True by (auto simp: annot_children_append)
  next
    case False
    then have "P \<noteq> ?P" using 2(3) by (auto simp: self_def)
    then have in_cs: "P \<in> set (annot_children ?P [] cs)" using 2(2) by simp
    have "distinct (map enid (concat (map infos cs)))" using 2(4) by simp
    then obtain prevs1 where
      "set (annot_children P prevs1 new) \<subseteq> set (annot_children ?P [] (map (append_children t new) cs))"
      using 2(1)[OF in_cs 2(3)] by blast
    then show ?thesis using False by auto
  qed
next
  case (3 up prevs)
  then show ?case by simp
next
  case (4 up prevs n ns)
  let ?prevs' = "case info n of None \<Rightarrow> prevs | Some e \<Rightarrow> e # prevs"
  have dn: "distinct (map enid (infos n))" and dns: "distinct (map enid (concat (map infos ns)))"
    using 4(5) by simp_all
  from 4(3) consider "P \<in> set (annot up prevs n)" | "P \<in> set (annot_children up ?prevs' ns)"
    by auto
  then show ?case
  proof cases
    case 1
    then obtain prevs1 where
      "set (annot_children P prevs1 new) \<subseteq> set (annot up prevs (append_children t new n))"
      using 4(1)[OF _ 4(4) dn] by blast
    then show ?thesis by auto
  next
    case 2
    then obtain prevs1 where
      "set (annot_children P prevs1 new)
         \<subseteq> set (annot_children up ?prevs' (map (append_children t new) ns))"
      using 4(2)[OF _ 4(4) dns] by blast
    then show ?thesis by auto
  qed
qed

lemma new_positions:
  assumes "wf_tree d" and "P \<in> set (positions d)" and "enid (self P) = t"
  shows "\<exists>prevs1. set (annot_children P prevs1 new) \<subseteq> set (positions (append_children t new d))"
  using new_positions_annot(1)[of P "[]" "[]" d t new] assms
  by (simp add: positions_def wf_tree_def)

lemma annot_map_info:
  "annot (map (map_level g) up) (map g prevs) (map_info g n)
     = map (map (map_level g)) (annot up prevs n)"
  "annot_children (map (map_level g) up) (map g prevs) (map (map_info g) ns)
     = map (map (map_level g)) (annot_children up prevs ns)"
proof (induction up prevs n and up prevs ns rule: annot_annot_children.induct)
  case (1 up prevs s)
  then show ?case by simp
next
  case (2 up prevs i t a c cs)
  obtain i' t' a' c' where g: "g (EInfo i t a c) = EInfo i' t' a' c'"
    by (cases "g (EInfo i t a c)") auto
  have "annot_children (map (map_level g) ((EInfo i t a c, prevs) # up)) (map g []) (map (map_info g) cs)
        = map (map (map_level g)) (annot_children ((EInfo i t a c, prevs) # up) [] cs)"
    using 2 by blast
  then show ?case using g by simp
next
  case (3 up prevs)
  then show ?case by simp
next
  case (4 up prevs n ns)
  have "map g (case info n of None \<Rightarrow> prevs | Some e \<Rightarrow> e # prevs)
        = (case info (map_info g n) of None \<Rightarrow> map g prevs | Some e \<Rightarrow> e # map g prevs)"
    by (cases "info n") (simp_all add: info_map_info)
  then show ?case using 4 by simp
qed

lemma positions_map_info:
  "positions (map_info g d) = map (map (map_level g)) (positions d)"
  using annot_map_info(1)[of g "[]" "[]" d] by (simp add: positions_def)

lemma cmatch_sel:
  "cmatch c e =
     ((case ctag c of None \<Rightarrow> True | Some x \<Rightarrow> x = etag e) \<and>
      (case cident c of None \<Rightarrow> True | Some x \<Rightarrow> map_of (eattrs e) ''id'' = Some x) \<and>
      list_all (\<lambda>k. k \<in> set (eclasses e)) (cclasses c))"
  by (cases c; cases e) (simp split: option.splits)

lemma class_only_add: "class_only k (at_node h (add_class k))"
proof -
  have "enid (at_node h (add_class k) e) = enid e \<and> etag (at_node h (add_class k) e) = etag e \<and>
        eattrs (at_node h (add_class k) e) = eattrs e \<and>
        set (eclasses e) \<subseteq> set (eclasses (at_node h (add_class k) e)) \<and>
        set (eclasses (at_node h (add_class k) e)) \<subseteq> insert k (set (eclasses e))" for e
    by (cases e) (auto simp: at_node_def)
  then show ?thesis by (simp add: class_only_def)
qed

lemma class_only_classes:
  "class_only k g \<Longrightarrow> x \<noteq> k \<Longrightarrow> x \<in> set (eclasses (g e)) \<longleftrightarrow> x \<in> set (eclasses e)"
  unfolding class_only_def by blast

lemma cmatch_class_only:
  assumes "class_only k g" and "k \<notin> set (cclasses c)"
  shows "cmatch c (g e) = cmatch c e"
proof -
  have "list_all (\<lambda>x. x \<in> set (eclasses (g e))) (cclasses c)
        = list_all (\<lambda>x. x \<in> set (eclasses e)) (cclasses c)"
    unfolding list_all_iff
  proof (rule ball_cong[OF refl])
    fix x assume "x \<in> set (cclasses c)"
    then have "x \<noteq> k" using assms(2) by blast
    then show "(x \<in> set (eclasses (g e))) = (x \<in> set (eclasses e))"
      by (rule class_only_classes[OF assms(1)])
  qed
  moreover have "etag (g e) = etag e" "eattrs (g e) = eattrs e"
    using assms(1) by (simp_all add: class_only_def)
  ultimately show ?thesis by (simp add: cmatch_sel split: option.splits)
qed

lemma any_ancestor_map:
  assumes "\<And>p. P' (map f p) = P p"
  shows "any_ancestor P' (map f up) = any_ancestor P up"
proof (induction up)
  case Nil
  then show ?case by simp
next
  case (Cons l up)
  have "P' (map f (l # up)) = P (l # up)" by (rule assms)
  then show ?case using Cons by simp
qed

lemma matches_class_only:
  assumes g: "class_only k g"
  shows "k \<notin> selector_classes sel \<Longrightarrow> matches sel (map (map_level g) p) = matches sel p"
proof (induction sel arbitrary: p)
  case (Simple c)
  then show ?case
    by (cases p) (auto simp: cmatch_class_only[OF g] split: prod.splits)
next
  case (Descendant sel c)
  show ?case
  proof (cases p)
    case Nil
    then show ?thesis by simp
  next
    case (Cons l up)
    obtain e ps where l: "l = (e, ps)" by (cases l)
    have "any_ancestor (matches sel) (map (map_level g) up)
          = any_ancestor (matches sel) up"
      using Descendant by (intro any_ancestor_map) simp
    then show ?thesis
      using Cons l Descendant.prems by (simp add: cmatch_class_only[OF g])
  qed
next
  case (Child sel c)
  show ?case
  proof (cases p)
    case Nil
    then show ?thesis by simp
  next
    case (Cons l up)
    obtain e ps where l: "l = (e, ps)" by (cases l)
    show ?thesis
      using Cons l Child by (simp add: cmatch_class_only[OF g])
  qed
next
  case (Adjacent sel c)
  show ?case
  proof (cases p)
    case Nil
    then show ?thesis by simp
  next
    case (Cons l up)
    obtain e ps where l: "l = (e, ps)" by (cases l)
    show ?thesis
    proof (cases ps)
      case Nil
      then show ?thesis using Cons l Adjacent.prems by (simp add: cmatch_class_only[OF g])
    next
      case (Cons q qs)
      have "matches sel (map (map_level g) ((q, qs) # up))
            = matches sel ((q, qs) # up)"
        using Adjacent.IH[of "(q, qs) # up"] Adjacent.prems by fastforce
      then have "matches sel ((g q, map g qs) #
                   map (map_level g) up)
            = matches sel ((q, qs) # up)"
        by simp
      then show ?thesis
        using \<open>p = l # up\<close> l Cons Adjacent.prems
        by (simp add: cmatch_class_only[OF g])
    qed
  qed
qed

lemma self_map_level: "p \<noteq> [] \<Longrightarrow> self (map (map_level g) p) = g (self p)"
  by (cases p) (auto simp: self_def split: prod.splits)

lemma positions_nonempty: "p \<in> set (positions d) \<Longrightarrow> p \<noteq> []"
proof -
  have "p \<in> set (annot up prevs n) \<Longrightarrow> p \<noteq> []"
    and "p \<in> set (annot_children up prevs ns) \<Longrightarrow> p \<noteq> []" for up prevs n ns
    by (induction up prevs n and up prevs ns rule: annot_annot_children.induct) auto
  then show "p \<in> set (positions d) \<Longrightarrow> p \<noteq> []" by (simp add: positions_def)
qed

text \<open>Adding a class no selector asks for changes no query.\<close>

lemma querySelectorAll_class_only:
  assumes "class_only k g" and "\<forall>sel \<in> set sels. k \<notin> selector_classes sel"
  shows "querySelectorAll sels (map_info g d) = querySelectorAll sels d"
proof -
  have m: "matches_any sels (map (map_level g) p) = matches_any sels p" for p
    using assms by (simp add: matches_any_def list_ex_iff matches_class_only)
  have e: "enid (self (map (map_level g) p)) = enid (self p)" if "p \<in> set (positions d)" for p
    using positions_nonempty[OF that] assms(1) by (simp add: self_map_level class_only_def)
  have "map (\<lambda>p. enid (self p)) (filter (matches_any sels) (map (map (map_level g)) (positions d)))
        = map (\<lambda>p. enid (self p)) (filter (matches_any sels) (positions d))"
    using e by (simp add: filter_map comp_def m cong: map_cong)
  then show ?thesis
    by (simp add: querySelectorAll_def positions_map_info)
qed

lemma querySelectorAll_add_class:
  assumes "\<forall>sel \<in> set sels. k \<notin> selector_classes sel"
  shows "querySelectorAll sels (classList_add_tree h k d) = querySelectorAll sels d"
  unfolding classList_add_tree_def
  using class_only_add assms by (rule querySelectorAll_class_only)

section \<open>Appending children\<close>

lemma append_children_absent:
  "t \<notin> enid ` set (infos n) \<Longrightarrow> append_children t new n = n"
proof (induction n)
  case (Element i tg a c cs)
  have "map (append_children t new) cs = cs"
    using Element by (intro map_idI) auto
  then show ?case using Element.prems by auto
next
  case (Text s)
  then show ?case by simp
qed

lemma infos_append_split:
  "distinct (map enid (infos n)) \<Longrightarrow> t \<in> enid ` set (infos n) \<Longrightarrow>
     \<exists>xs ys. infos n = xs @ ys \<and>
             infos (append_children t new n) = xs @ concat (map infos new) @ ys"
proof (induction n)
  case (Element i tg a c cs)
  let ?N = "concat (map infos new)"
  show ?case
  proof (cases "i = t")
    case True
    have "infos (Element i tg a c cs) = infos (Element i tg a c cs) @ []" by simp
    moreover have "infos (append_children t new (Element i tg a c cs))
                   = infos (Element i tg a c cs) @ ?N @ []"
      using True by simp
    ultimately show ?thesis by blast
  next
    case False
    have t_in: "t \<in> ids_of cs" using Element.prems(2) False by (auto simp: ids_of_def)
    have d_cs: "distinct (map enid (concat (map infos cs)))" using Element.prems(1) by simp
    have "\<exists>xs ys. concat (map infos zs) = xs @ ys \<and>
                  concat (map (\<lambda>z. infos (append_children t new z)) zs) = xs @ ?N @ ys"
      if "set zs \<subseteq> set cs" and "distinct (map enid (concat (map infos zs)))" and "t \<in> ids_of zs"
      for zs
      using that
    proof (induction zs)
      case Nil
      then show ?case by simp
    next
      case (Cons z zs)
      have z_in: "z \<in> set cs" using Cons.prems(1) by simp
      have dz: "distinct (map enid (infos z))" and dzs: "distinct (map enid (concat (map infos zs)))"
        and disj: "enid ` set (infos z) \<inter> ids_of zs = {}"
        using Cons.prems(2) by (auto simp: ids_of_def)
      show ?case
      proof (cases "t \<in> enid ` set (infos z)")
        case True
        then have "t \<notin> ids_of zs" using disj by auto
        then have same: "\<forall>x \<in> set zs. append_children t new x = x"
          using in_ids_child by (intro ballI append_children_absent) blast
        obtain xs ys where "infos z = xs @ ys"
          "infos (append_children t new z) = xs @ ?N @ ys"
          using Element.IH[OF z_in dz True] by blast
        moreover have "concat (map (\<lambda>z. infos (append_children t new z)) zs) = concat (map infos zs)"
          using same by (simp cong: map_cong)
        ultimately have "concat (map infos (z # zs)) = xs @ (ys @ concat (map infos zs)) \<and>
           concat (map (\<lambda>z. infos (append_children t new z)) (z # zs))
             = xs @ ?N @ (ys @ concat (map infos zs))"
          by simp
        then show ?thesis by blast
      next
        case False
        then have "append_children t new z = z" by (rule append_children_absent)
        moreover have "t \<in> ids_of zs" using Cons.prems(3) False by simp
        then obtain xs ys where "concat (map infos zs) = xs @ ys"
          "concat (map (\<lambda>z. infos (append_children t new z)) zs) = xs @ ?N @ ys"
          using Cons.IH Cons.prems(1) dzs by auto
        ultimately have "concat (map infos (z # zs)) = (infos z @ xs) @ ys \<and>
           concat (map (\<lambda>z. infos (append_children t new z)) (z # zs)) = (infos z @ xs) @ ?N @ ys"
          by simp
        then show ?thesis by blast
      qed
    qed
    from this[of cs] d_cs t_in obtain xs ys where
      "concat (map infos cs) = xs @ ys"
      "concat (map (\<lambda>z. infos (append_children t new z)) cs) = xs @ ?N @ ys"
      by auto
    then have "infos (Element i tg a c cs) = (EInfo i tg a c # xs) @ ys \<and>
               infos (append_children t new (Element i tg a c cs)) = (EInfo i tg a c # xs) @ ?N @ ys"
      using False by (simp add: comp_def)
    then show ?thesis by blast
  qed
next
  case (Text s)
  then show ?case by simp
qed

lemma wf_append_children:
  assumes "wf_tree d" and "t \<in> enid ` set (infos d)"
    and "distinct (map enid (concat (map infos new)))"
    and "ids_of new \<inter> enid ` set (infos d) = {}"
  shows "wf_tree (append_children t new d)"
proof -
  obtain xs ys where s: "infos d = xs @ ys"
    "infos (append_children t new d) = xs @ concat (map infos new) @ ys"
    using infos_append_split[of d t new] assms(1,2) by (auto simp: wf_tree_def)
  show ?thesis
    using assms(1,3,4) unfolding wf_tree_def s ids_of_def by auto
qed

lemma count_append_children:
  assumes "wf_tree d" and "t \<in> enid ` set (infos d)"
  shows "length (filter P (infos (append_children t new d)))
           = length (filter P (infos d)) + length (filter P (concat (map infos new)))"
proof -
  obtain xs ys where s: "infos d = xs @ ys"
    "infos (append_children t new d) = xs @ concat (map infos new) @ ys"
    using infos_append_split[of d t new] assms by (auto simp: wf_tree_def)
  show ?thesis unfolding s by simp
qed

lemma set_infos_append_children:
  "set (infos (append_children t new d)) \<subseteq> set (infos d) \<union> set (concat (map infos new))"
proof (induction d)
  case (Element i tg a c cs)
  then show ?case by (auto simp: comp_def)
next
  case (Text s)
  then show ?case by simp
qed

lemma filter_infos_append_children:
  assumes "\<forall>e \<in> set (concat (map infos new)). \<not> P e"
  shows "filter P (infos (append_children t new d)) = filter P (infos d)"
proof (induction d)
  case (Element i tg a c cs)
  have "concat (map (filter P \<circ> infos \<circ> append_children t new) cs) = concat (map (filter P \<circ> infos) cs)"
    using Element by (induction cs) auto
  moreover have "filter P (concat (map infos new)) = []"
    using assms by (simp add: filter_empty_conv)
  ultimately show ?case by (simp add: filter_concat comp_def)
next
  case (Text s)
  then show ?case by simp
qed

lemma lookup_append_children:
  assumes "n \<notin> ids_of new"
  shows "lookup n (append_children t new d) = lookup n d"
proof -
  have "\<forall>e \<in> set (concat (map infos new)). \<not> enid e = n"
    using assms by (auto simp: ids_of_def)
  then show ?thesis
    unfolding lookup_def find_filter[of "\<lambda>e. enid e = n"]
    by (simp add: filter_infos_append_children)
qed

section \<open>Hide buttons\<close>

lemma levels_in_infos:
  "p \<in> set (annot up prevs n) \<Longrightarrow>
     \<exists>q. p = q @ up \<and> q \<noteq> [] \<and> fst ` set q \<subseteq> set (infos n)"
  "p \<in> set (annot_children up prevs ns) \<Longrightarrow>
     \<exists>q. p = q @ up \<and> q \<noteq> [] \<and> fst ` set q \<subseteq> set (concat (map infos ns))"
proof (induction up prevs n and up prevs ns rule: annot_annot_children.induct)
  case (1 up prevs s)
  then show ?case by simp
next
  case (2 up prevs i t a c cs)
  let ?P = "(EInfo i t a c, prevs) # up"
  show ?case
  proof (cases "p = ?P")
    case True
    then show ?thesis
      by (intro exI[of _ "[(EInfo i t a c, prevs)]"]) simp
  next
    case False
    then have "p \<in> set (annot_children ?P [] cs)" using 2(2) by simp
    then obtain q where q: "p = q @ ?P" "q \<noteq> []" "fst ` set q \<subseteq> set (concat (map infos cs))"
      using 2(1) by blast
    have "p = (q @ [(EInfo i t a c, prevs)]) @ up" using q(1) by simp
    moreover have "fst ` set (q @ [(EInfo i t a c, prevs)]) \<subseteq> set (infos (Element i t a c cs))"
      using q(3) by auto
    moreover have "q @ [(EInfo i t a c, prevs)] \<noteq> []" by simp
    ultimately show ?thesis by blast
  qed
next
  case (3 up prevs)
  then show ?case by simp
next
  case (4 up prevs n ns)
  from 4(3) consider "p \<in> set (annot up prevs n)"
    | "p \<in> set (annot_children up (case info n of None \<Rightarrow> prevs | Some e \<Rightarrow> e # prevs) ns)"
    by auto
  then show ?case
  proof cases
    case 1
    then obtain q where "p = q @ up" "q \<noteq> []" "fst ` set q \<subseteq> set (infos n)"
      using 4(1) by blast
    then show ?thesis by auto
  next
    case 2
    then obtain q where "p = q @ up" "q \<noteq> []" "fst ` set q \<subseteq> set (concat (map infos ns))"
      using 4(2) by blast
    then show ?thesis by auto
  qed
qed

lemma position_levels: "p \<in> set (positions d) \<Longrightarrow> fst ` set p \<subseteq> set (infos d)"
  using levels_in_infos(1)[of p "[]" "[]" d] by (auto simp: positions_def)

lemma lookup_unique:
  assumes "wf_tree d" and "e \<in> set (infos d)"
  shows "lookup (enid e) d = Some e"
proof -
  have "find (\<lambda>x. enid x = enid e) xs = Some e" if "distinct (map enid xs)" "e \<in> set xs" for xs
    using that by (induction xs) (auto simp: image_iff)
  then show ?thesis using assms by (simp add: lookup_def wf_tree_def)
qed

lemma level_lookup:
  assumes "wf_tree d" and "p \<in> set (positions d)" and "l \<in> set p"
  shows "lookup (enid (fst l)) d = Some (fst l)"
  using lookup_unique[OF assms(1)] position_levels[OF assms(2)] assms(3) by blast

lemma querySelector_None:
  "querySelector sels d = None \<longleftrightarrow> querySelectorAll sels d = []"
  by (simp add: querySelector_def split: list.splits)

lemma guarded_iff: "guarded d \<longleftrightarrow> (\<exists>p \<in> set (positions d). matches_any hideButtonGuard p)"
  by (simp add: guarded_def querySelector_None querySelectorAll_def filter_empty_conv)

lemma any_ancestorI: "l \<in> set up \<Longrightarrow> (\<And>r. P (l # r)) \<Longrightarrow> any_ancestor P up"
  by (induction up) auto

lemma querySelector_within_Some:
  assumes "querySelector_within c sels d = Some t"
  shows "\<exists>p \<in> set (positions d). enid (self p) = t \<and> c \<in> enid ` set (ancestors p) \<and>
           matches_any sels p"
proof -
  let ?Q = "\<lambda>p. c \<in> set (map enid (ancestors p)) \<and> matches_any sels p"
  obtain p ps where f: "filter ?Q (positions d) = p # ps" and t: "t = enid (self p)"
    using assms by (auto simp: querySelector_within_def split: list.splits)
  have "p \<in> set (filter ?Q (positions d))" using f by simp
  then show ?thesis using t by auto
qed

text \<open>The position of a hide button under a tagged cell matches the guard's selector.\<close>

lemma guard_matches_new_input:
  assumes "p \<in> set (positions d)" and "c \<in> enid ` set (ancestors p)"
    and "wf_tree d" and "lookup c d = Some ec" and "etag ec = ''div''"
    and "''tag_hide_input'' \<in> set (eclasses ec)" and "etag e = ''input''"
  shows "matches_any hideButtonGuard ((e, prevs) # p)"
proof -
  obtain l where l: "l \<in> set (tl p)" "enid (fst l) = c"
    using assms(2) by (auto simp: ancestors_def)
  then have lp: "l \<in> set p" by (cases p) auto
  have "fst l = ec" using level_lookup[OF assms(3,1) lp] l(2) assms(4) by simp
  then have "cmatch (tag_class ''div'' ''tag_hide_input'') (fst l)"
    using assms(5,6) by (cases ec) (auto simp: tag_class_def)
  then have m: "matches (Simple (tag_class ''div'' ''tag_hide_input'')) (l # r)" for r
    by (cases l) simp
  have "any_ancestor (matches (Simple (tag_class ''div'' ''tag_hide_input''))) p"
    using lp m by (rule any_ancestorI)
  moreover have "cmatch (tag_sel ''input'') e"
    using assms(7) by (cases e) (simp add: tag_sel_def)
  ultimately show ?thesis
    by (simp add: matches_any_def hideButtonGuard_def)
qed

lemma infos_hideCodeButton:
  "concat (map infos (hideCodeButton ident k))
     = [hide_input ident k, hide_label ident k,
        EInfo (k + 2) ''span'' [] [''pm_h''], EInfo (k + 3) ''span'' [] [''pm_v'']]"
  by (simp add: hideCodeButton_def hide_input_def hide_label_def)

lemma ids_hideCodeButton: "ids_of (hideCodeButton ident k) = {k, k + 1, k + 2, k + 3}"
  unfolding ids_of_def infos_hideCodeButton by (auto simp: hide_input_def hide_label_def)

lemma annot_hideCodeButton:
  "(hide_input ident k, prevs) # P \<in> set (annot_children P prevs (hideCodeButton ident k))"
  "(hide_label ident k, hide_input ident k # prevs) # P
     \<in> set (annot_children P prevs (hideCodeButton ident k))"
  by (simp_all add: hideCodeButton_def hide_input_def hide_label_def)

lemma old_position_kept:
  assumes "p \<in> set (positions d)" and "\<forall>e \<in> set (infos d). e \<notin> set (concat (map infos new))"
  shows "p \<in> set (positions (append_children t new d))"
proof -
  have s: "self p \<in> set (infos d)"
    using assms(1) self_positions[of d] by (metis imageI list.set_map)
  have "filter (\<lambda>q. q = p) (positions (append_children t new d)) = filter (\<lambda>q. q = p) (positions d)"
    using s assms(2) by (intro filter_positions_append_children) auto
  moreover have "p \<in> set (filter (\<lambda>q. q = p) (positions d))" using assms(1) by simp
  ultimately have "p \<in> set (filter (\<lambda>q. q = p) (positions (append_children t new d)))" by simp
  then show ?thesis by simp
qed

text \<open>The tree after a hide button has been appended for a tagged cell.\<close>

lemma hide_insert:
  fixes ident :: string
  assumes wf: "wf_tree d" and fr: "\<forall>e \<in> set (infos d). enid e < k"
    and tgt: "querySelector_within c [Simple (tag_class ''div'' ''input'')] d = Some t"
    and cell: "lookup c d = Some ec" "etag ec = ''div''" "''tag_hide_input'' \<in> set (eclasses ec)"
  defines "d1 \<equiv> append_children t (hideCodeButton ident k) d"
  shows "wf_tree d1"
    and "\<forall>e \<in> set (infos d1). enid e < k + 4"
    and "\<forall>n < k. lookup n d1 = lookup n d"
    and "hide_buttons d1 = hide_buttons d + 1"
    and "guarded d1"
    and "set (positions d) \<subseteq> set (positions d1)"
    and "\<And>Q. (\<And>p. Q p \<Longrightarrow> etag (self p) = ''div'') \<Longrightarrow>
            filter Q (positions d1) = filter Q (positions d)"
    and "\<exists>P prevs. P \<in> set (positions d) \<and> c \<in> enid ` set (ancestors P) \<and>
           (hide_input ident k, prevs) # P \<in> set (positions d1) \<and>
           (hide_label ident k, hide_input ident k # prevs) # P \<in> set (positions d1)"
    and "lookup k d1 = Some (hide_input ident k)"
    and "lookup (k + 1) d1 = Some (hide_label ident k)"
proof -
  let ?new = "hideCodeButton ident k"
  obtain P where P: "P \<in> set (positions d)" "enid (self P) = t" "c \<in> enid ` set (ancestors P)"
    using querySelector_within_Some[OF tgt] by blast
  have t_in: "t \<in> enid ` set (infos d)"
    using P(1,2) self_positions[of d] by (metis imageI list.set_map)
  have old_new: "\<forall>e \<in> set (infos d). e \<notin> set (concat (map infos ?new))"
    using fr unfolding infos_hideCodeButton by (auto simp: hide_input_def hide_label_def)
  have disj: "ids_of ?new \<inter> enid ` set (infos d) = {}"
    using fr by (auto simp: ids_hideCodeButton)
  have dnew: "distinct (map enid (concat (map infos ?new)))"
    unfolding infos_hideCodeButton by (simp add: hide_input_def hide_label_def)
  show w1: "wf_tree d1"
    unfolding d1_def using wf t_in dnew disj by (rule wf_append_children)
  show "\<forall>e \<in> set (infos d1). enid e < k + 4"
  proof
    fix e assume "e \<in> set (infos d1)"
    then have "e \<in> set (infos d) \<or> e \<in> set (concat (map infos ?new))"
      using set_infos_append_children[of t ?new d] by (auto simp: d1_def)
    then show "enid e < k + 4"
      using fr unfolding infos_hideCodeButton by (auto simp: hide_input_def hide_label_def)
  qed
  show "\<forall>n < k. lookup n d1 = lookup n d"
    by (simp add: d1_def lookup_append_children ids_hideCodeButton)
  show "hide_buttons d1 = hide_buttons d + 1"
    unfolding hide_buttons_def d1_def count_append_children[OF wf t_in] infos_hideCodeButton
    by (simp add: is_hide_button_def hide_input_def hide_label_def)
  show sub: "set (positions d) \<subseteq> set (positions d1)"
    unfolding d1_def using old_position_kept[OF _ old_new] by blast
  obtain prevs where new: "set (annot_children P prevs ?new) \<subseteq> set (positions d1)"
    unfolding d1_def using new_positions[OF wf P(1,2)] by blast
  have pin: "(hide_input ident k, prevs) # P \<in> set (positions d1)"
    and plab: "(hide_label ident k, hide_input ident k # prevs) # P \<in> set (positions d1)"
    using new annot_hideCodeButton[of ident k prevs P] by blast+
  show "\<exists>P prevs. P \<in> set (positions d) \<and> c \<in> enid ` set (ancestors P) \<and>
           (hide_input ident k, prevs) # P \<in> set (positions d1) \<and>
           (hide_label ident k, hide_input ident k # prevs) # P \<in> set (positions d1)"
    using P(1,3) pin plab by blast
  have P1: "P \<in> set (positions d1)" using sub P(1) by blast
  have c1: "lookup c d1 = Some ec"
  proof -
    have "c < k" using cell(1) fr lookup_iff[of c d] lookup_enid[OF cell(1)]
      by (metis image_iff option.distinct(1))
    then show ?thesis using cell(1) by (simp add: d1_def lookup_append_children ids_hideCodeButton)
  qed
  have "matches_any hideButtonGuard ((hide_input ident k, prevs) # P)"
    using P1 P(3) w1 c1 cell(2,3) by (rule guard_matches_new_input) (simp add: hide_input_def)
  then show "guarded d1" using pin guarded_iff by blast
  show "filter Q (positions d1) = filter Q (positions d)"
    if "\<And>p. Q p \<Longrightarrow> etag (self p) = ''div''" for Q
    unfolding d1_def
  proof (rule filter_positions_append_children)
    fix p assume "Q p"
    then have "etag (self p) = ''div''" by (rule that)
    then show "self p \<notin> set (concat (map infos ?new))"
      unfolding infos_hideCodeButton by (auto simp: hide_input_def hide_label_def)
  qed
  have "hide_input ident k \<in> set (infos d1)"
    using position_levels[OF pin] by auto
  then show "lookup k d1 = Some (hide_input ident k)"
    using lookup_unique[OF w1] by (fastforce simp: hide_input_def)
  have "hide_label ident k \<in> set (infos d1)"
    using position_levels[OF plab] by auto
  then show "lookup (k + 1) d1 = Some (hide_label ident k)"
    using lookup_unique[OF w1] by (fastforce simp: hide_label_def)
qed

lemma fresh_iff: "fresh s \<longleftrightarrow> (\<forall>e \<in> set (infos (tree s)). enid e < nextId s)"
  by (simp add: fresh_def list_all_iff)

lemma is_div_lookup: "is_div d c \<Longrightarrow> \<exists>e. lookup c d = Some e \<and> etag e = ''div''"
  by (auto simp: is_div_def tagName_of_def)

lemma is_div_cong: "lookup c d' = lookup c d \<Longrightarrow> is_div d' c = is_div d c"
  by (simp add: is_div_def tagName_of_def)

lemma tagged_cong: "lookup c d' = lookup c d \<Longrightarrow> tagged d' c = tagged d c"
  by (simp add: tagged_def classList_contains_def)

text \<open>What the loop body of \<^verbatim>\<open>addHideButton\<close> does to a cell that is a \<^verbatim>\<open>div\<close> of the page.\<close>

lemma hideButtonFor_step:
  assumes wf: "wf_tree (tree s)" and fr: "fresh s" and dv: "is_div (tree s) c"
  shows "(\<not> tagged (tree s) c \<and> hideButtonFor c s = Done s) \<or>
         (tagged (tree s) c \<and> hideButtonFor c s = Throws TypeError s) \<or>
         (tagged (tree s) c \<and>
          (\<exists>t. querySelector_within c [Simple (tag_class ''div'' ''input'')] (tree s) = Some t \<and>
             tree (state_of (hideButtonFor c s))
               = append_children t
                   (hideCodeButton (js_string (getAttribute c ''id'' (tree s))) (nextId s)) (tree s)) \<and>
          nextId (state_of (hideButtonFor c s)) = nextId s + 4 \<and>
          pageElements (state_of (hideButtonFor c s)) = pageElements s \<and>
          checked (state_of (hideButtonFor c s)) = (checked s)(nextId s := False))"
proof (cases "tagged (tree s) c")
  case False
  then show ?thesis by (simp add: hideButtonFor_def tagged_def)
next
  case True
  show ?thesis
  proof (cases "querySelector_within c [Simple (tag_class ''div'' ''input'')] (tree s)")
    case None
    then show ?thesis using True by (simp add: hideButtonFor_def tagged_def)
  next
    case (Some t)
    then show ?thesis
      using True
      by (simp add: hideButtonFor_def tagged_def Let_def insertAdjacentHTML_beforeend_def
            node_addEventListener_def split: option.splits)
  qed
qed

lemma hide_loop_count:
  assumes "wf_tree (tree u)" and "fresh u" and "\<forall>c \<in> set cells. is_div (tree u) c"
  shows "wf_tree (tree (state_of (forEach cells hideButtonFor u))) \<and>
         fresh (state_of (forEach cells hideButtonFor u)) \<and>
         nextId u \<le> nextId (state_of (forEach cells hideButtonFor u)) \<and>
         (\<forall>n < nextId u. lookup n (tree (state_of (forEach cells hideButtonFor u)))
                          = lookup n (tree u)) \<and>
         pageElements (state_of (forEach cells hideButtonFor u)) = pageElements u \<and>
         hide_buttons (tree (state_of (forEach cells hideButtonFor u)))
           \<le> hide_buttons (tree u) + length (filter (tagged (tree u)) cells) \<and>
         (state_of (forEach cells hideButtonFor u) = u \<or>
          guarded (tree (state_of (forEach cells hideButtonFor u)))) \<and>
         (guarded (tree u) \<longrightarrow> guarded (tree (state_of (forEach cells hideButtonFor u))))"
  using assms
proof (induction cells arbitrary: u)
  case Nil
  then show ?case by simp
next
  case (Cons c cells)
  let ?r = "hideButtonFor c u"
  let ?v = "state_of ?r"
  let ?res = "\<lambda>cs w. state_of (forEach cs hideButtonFor w)"
  have wf: "wf_tree (tree u)" and fr: "fresh u" and dv: "is_div (tree u) c"
    and dvs: "\<forall>c' \<in> set cells. is_div (tree u) c'"
    using Cons.prems by simp_all
  have lt: "c' < nextId u" if "c' \<in> set (c # cells)" for c'
  proof -
    have "is_div (tree u) c'" using that Cons.prems(3) by blast
    then have "lookup c' (tree u) \<noteq> None" using is_div_lookup by fastforce
    then show ?thesis using fr fresh_lookup by blast
  qed
  from hideButtonFor_step[OF wf fr dv]
  consider (skip) "\<not> tagged (tree u) c" "?r = Done u"
    | (fail) "tagged (tree u) c" "?r = Throws TypeError u"
    | (ins) t where "tagged (tree u) c"
        "querySelector_within c [Simple (tag_class ''div'' ''input'')] (tree u) = Some t"
        "tree ?v = append_children t
                   (hideCodeButton (js_string (getAttribute c ''id'' (tree u))) (nextId u)) (tree u)"
        "nextId ?v = nextId u + 4" "pageElements ?v = pageElements u"
    by blast
  then show ?case
  proof cases
    case skip
    then show ?thesis using Cons.IH[OF wf fr dvs] by simp
  next
    case fail
    then show ?thesis using wf fr by simp
  next
    case ins
    obtain ec where ec: "lookup c (tree u) = Some ec" "etag ec = ''div''"
      using is_div_lookup[OF dv] by blast
    have cls: "''tag_hide_input'' \<in> set (eclasses ec)"
      using ins(1) ec(1) by (simp add: tagged_def classList_contains_def)
    note h = hide_insert[OF wf fr[unfolded fresh_iff] ins(2) ec cls,
        where ident = "js_string (getAttribute c ''id'' (tree u))", folded ins(3)]
    have wfv: "wf_tree (tree ?v)" using h(1) .
    have frv: "fresh ?v" using h(2) ins(4) by (simp add: fresh_iff)
    have lookv: "\<forall>n < nextId u. lookup n (tree ?v) = lookup n (tree u)" using h(3) .
    have cntv: "hide_buttons (tree ?v) = hide_buttons (tree u) + 1" using h(4) .
    have gv: "guarded (tree ?v)" using h(5) .
    have same: "lookup c' (tree ?v) = lookup c' (tree u)" if "c' \<in> set cells" for c'
      using lookv lt[of c'] that by simp
    have dvv: "\<forall>c' \<in> set cells. is_div (tree ?v) c'"
    proof
      fix c' assume c': "c' \<in> set cells"
      then have "is_div (tree u) c'" using dvs by blast
      then show "is_div (tree ?v) c'" using is_div_cong[OF same[OF c']] by blast
    qed
    have tagv: "filter (tagged (tree ?v)) cells = filter (tagged (tree u)) cells"
    proof (rule filter_cong[OF refl])
      fix c' assume "c' \<in> set cells"
      then show "tagged (tree ?v) c' = tagged (tree u) c'" using tagged_cong[OF same] by blast
    qed
    show ?thesis
    proof (cases ?r)
      case (Throws e w)
      then have w: "?v = w" "?res (c # cells) u = w" by simp_all
      have "hide_buttons (tree ?v)
            \<le> hide_buttons (tree u) + length (filter (tagged (tree u)) (c # cells))"
        using cntv ins(1) by simp
      moreover have "nextId u \<le> nextId ?v" using ins(4) by simp
      ultimately show ?thesis
        unfolding w(2) w(1)[symmetric] using wfv frv lookv gv ins(5) by blast
    next
      case (Done w)
      then have w: "?v = w" "?res (c # cells) u = ?res cells w" by simp_all
      note ih = Cons.IH[of w, unfolded w(1)[symmetric], OF wfv frv dvv]
      have "\<forall>n < nextId u. lookup n (tree (?res cells ?v)) = lookup n (tree u)"
        using ih lookv ins(4) by simp
      moreover have "hide_buttons (tree (?res cells ?v))
            \<le> hide_buttons (tree u) + length (filter (tagged (tree u)) (c # cells))"
        using ih cntv tagv ins(1) by simp
      moreover have "guarded (tree (?res cells ?v))" using ih gv by blast
      moreover have "nextId u \<le> nextId (?res cells ?v)" using ih ins(4) by simp
      moreover have "pageElements (?res cells ?v) = pageElements u" using ih ins(5) by simp
      ultimately show ?thesis
        unfolding w(2) w(1)[symmetric] using ih by blast
    qed
  qed
qed

lemma keeps_cells_refl: "keeps_cells u u"
  by (simp add: keeps_cells_def)

lemma keeps_cells_trans: "keeps_cells u v \<Longrightarrow> keeps_cells v w \<Longrightarrow> keeps_cells u w"
  by (simp add: keeps_cells_def)

lemma infos_classList_add:
  "infos (classList_add_tree h k d) = map (at_node h (add_class k)) (infos d)"
  by (simp add: classList_add_tree_def infos_map_info enid_at_node)

lemma lookup_classList_add:
  "lookup n (classList_add_tree h k d) = map_option (at_node h (add_class k)) (lookup n d)"
  by (simp add: classList_add_tree_def lookup_map_info enid_at_node)

lemma etag_add_class [simp]: "etag (at_node h (add_class k) e) = etag e"
  by (cases e) (simp add: at_node_def)

lemma enid_add_class_at [simp]: "enid (at_node h (add_class k) e) = enid e"
  by (simp add: at_node_def)

lemma eattrs_add_class [simp]: "eattrs (at_node h (add_class k) e) = eattrs e"
  by (cases e) (simp add: at_node_def)

lemma eclasses_add_class:
  "x \<noteq> k \<Longrightarrow> x \<in> set (eclasses (at_node h (add_class k) e)) \<longleftrightarrow> x \<in> set (eclasses e)"
  by (cases e) (auto simp: at_node_def)

lemma eclasses_add_class_mono:
  "x \<in> set (eclasses e) \<Longrightarrow> x \<in> set (eclasses (at_node h (add_class k) e))"
  by (cases e) (auto simp: at_node_def)

lemma classList_add_keeps:
  assumes "tree u' = classList_add_tree h ''hidden'' (tree u)" and "nextId u' = nextId u"
    and "pageElements u' = pageElements u"
  shows "keeps_cells u u'"
proof -
  let ?g = "at_node h (add_class ''hidden'')"
  have i: "infos (tree u') = map ?g (infos (tree u))"
    by (simp add: assms(1) infos_classList_add)
  have ids: "map enid (infos (tree u')) = map enid (infos (tree u))"
    by (simp add: i comp_def)
  have wf: "wf_tree (tree u') = wf_tree (tree u)" by (simp add: wf_tree_def ids)
  have fr: "fresh u' = fresh u"
    using assms(2) by (simp add: fresh_iff i)
  have hb: "is_hide_button (?g e) = is_hide_button e" for e
    by (simp add: is_hide_button_def eclasses_add_class)
  have cnt: "hide_buttons (tree u') = hide_buttons (tree u)"
    by (simp add: hide_buttons_def i filter_map comp_def hb)
  have "querySelectorAll hideButtonGuard (tree u') = querySelectorAll hideButtonGuard (tree u)"
    unfolding assms(1)
    by (rule querySelectorAll_add_class) (simp add: hideButtonGuard_def tag_class_def tag_sel_def)
  then have g: "guarded (tree u') = guarded (tree u)"
    by (simp add: guarded_def querySelector_def)
  have l: "lookup c (tree u') = map_option ?g (lookup c (tree u))" for c
    by (simp add: assms(1) lookup_classList_add)
  have dv: "is_div (tree u') c = is_div (tree u) c" for c
    by (cases "lookup c (tree u)") (simp_all add: is_div_def tagName_of_def l)
  have tg: "tagged (tree u') c = tagged (tree u) c" for c
    by (cases "lookup c (tree u)")
       (simp_all add: tagged_def classList_contains_def l eclasses_add_class)
  show ?thesis
    using wf fr cnt g dv tg assms(3) by (simp add: keeps_cells_def)
qed

lemma same_tree_keeps:
  "tree u' = tree u \<Longrightarrow> nextId u' = nextId u \<Longrightarrow> pageElements u' = pageElements u \<Longrightarrow>
     keeps_cells u u'"
  by (simp add: keeps_cells_def fresh_iff)

lemma hideItem_keeps: "keeps_cells u (state_of (hideItem item u))"
proof -
  let ?q = "querySelector
       [Descendant (Simple (id_sel (js_string (getAttribute item ''data-id'' (tree u)))))
          (tag_class ''div'' ''highlight'')] (tree u)"
  show ?thesis
  proof (cases ?q)
    case None
    then have "state_of (hideItem item u) = u"
      by (simp add: hideItem_def setCodeCellVisibility_def)
    then show ?thesis by (simp add: keeps_cells_refl)
  next
    case (Some h)
    then have "tree (state_of (hideItem item u)) = classList_add_tree h ''hidden'' (tree u)"
      "nextId (state_of (hideItem item u)) = nextId u"
      "pageElements (state_of (hideItem item u)) = pageElements u"
      by (simp_all add: hideItem_def setCodeCellVisibility_def classList_add_def)
    then show ?thesis by (rule classList_add_keeps)
  qed
qed

lemma hideItem_loop_keeps: "keeps_cells u (state_of (forEach items hideItem u))"
  by (rule forEach_preserves[where P = "keeps_cells u"])
     (auto intro: keeps_cells_trans hideItem_keeps keeps_cells_refl)

lemma stored_keeps:
  assumes "inputCells_stored cells u" and "keeps_cells u u'"
  shows "inputCells_stored cells u'"
    and "filter (tagged (tree u')) cells = filter (tagged (tree u)) cells"
proof -
  show "inputCells_stored cells u'"
    using assms by (simp add: inputCells_stored_def keeps_cells_def list_all_iff)
  have "tagged (tree u') = tagged (tree u)"
    using assms(2) by (auto simp: keeps_cells_def)
  then show "filter (tagged (tree u')) cells = filter (tagged (tree u)) cells" by simp
qed

text \<open>One run of \<^verbatim>\<open>initHiddenCells\<close> on stored input cells.\<close>

lemma initHiddenCells_run:
  assumes "inputCells_stored cells s"
  defines "s1 \<equiv> state_of (initHiddenCells s)"
  shows "inputCells_stored cells s1"
    and "filter (tagged (tree s1)) cells = filter (tagged (tree s)) cells"
    and "hide_buttons (tree s1) \<le> hide_buttons (tree s) + length (filter (tagged (tree s)) cells)"
    and "guarded (tree s) \<Longrightarrow> guarded (tree s1) \<and> hide_buttons (tree s1) = hide_buttons (tree s)"
    and "s1 = s \<or> guarded (tree s1)"
proof -
  have wf: "wf_tree (tree s)" and fr: "fresh s" and pe: "pageElements s ''inputCells'' = Some cells"
    and dv: "\<forall>c \<in> set cells. is_div (tree s) c"
    using assms(1) by (simp_all add: inputCells_stored_def list_all_iff)
  let ?a = "addHideButton s"
  let ?u = "state_of ?a"
  have a: "inputCells_stored cells ?u \<and>
           filter (tagged (tree ?u)) cells = filter (tagged (tree s)) cells \<and>
           hide_buttons (tree ?u) \<le> hide_buttons (tree s) + length (filter (tagged (tree s)) cells) \<and>
           (guarded (tree s) \<longrightarrow> ?a = Done s) \<and> (?u = s \<or> guarded (tree ?u))"
  proof (cases "guarded (tree s)")
    case True
    then have "?a = Done s" by (simp add: addHideButton_def guarded_def)
    then show ?thesis using assms(1) by simp
  next
    case False
    then have run: "?a = forEach cells hideButtonFor s"
      using pe by (simp add: addHideButton_def guarded_def)
    note l = hide_loop_count[OF wf fr dv, folded run]
    have lt: "c < nextId s" if "c \<in> set cells" for c
    proof -
      have "lookup c (tree s) \<noteq> None" using dv that is_div_lookup by fastforce
      then show ?thesis using fr fresh_lookup by blast
    qed
    have same: "lookup c (tree ?u) = lookup c (tree s)" if "c \<in> set cells" for c
      using l lt[OF that] by simp
    have "\<forall>c \<in> set cells. is_div (tree ?u) c"
      using dv is_div_cong[OF same] by blast
    then have st: "inputCells_stored cells ?u"
      using l pe by (simp add: inputCells_stored_def list_all_iff)
    have tg: "filter (tagged (tree ?u)) cells = filter (tagged (tree s)) cells"
    proof (rule filter_cong[OF refl])
      fix c assume "c \<in> set cells"
      then show "tagged (tree ?u) c = tagged (tree s) c" using tagged_cong[OF same] by blast
    qed
    show ?thesis using st tg l False by blast
  qed
  have b: "keeps_cells ?u s1 \<and> (?u = s \<and> \<not> guarded (tree s) \<longrightarrow> s1 = s)"
  proof (cases ?a)
    case (Throws e w)
    then have "s1 = ?u" by (simp add: s1_def initHiddenCells_def)
    then show ?thesis by (auto simp: keeps_cells_refl)
  next
    case (Done w)
    then have s1: "s1 = state_of (forEach (querySelectorAll hideButtonGuard (tree ?u)) hideItem ?u)"
      by (simp add: s1_def initHiddenCells_def)
    have "s1 = s" if "?u = s" "\<not> guarded (tree s)"
    proof -
      have "querySelectorAll hideButtonGuard (tree s) = []"
        using that(2) by (simp add: guarded_def querySelector_None)
      then show ?thesis using s1 that(1) by simp
    qed
    then show ?thesis using s1 hideItem_loop_keeps by simp
  qed
  have k: "keeps_cells ?u s1" using b by blast
  show "inputCells_stored cells s1" using a k stored_keeps(1) by blast
  show "filter (tagged (tree s1)) cells = filter (tagged (tree s)) cells"
    using a k stored_keeps(2) by metis
  show "hide_buttons (tree s1) \<le> hide_buttons (tree s) + length (filter (tagged (tree s)) cells)"
    using a k by (simp add: keeps_cells_def)
  show "guarded (tree s1) \<and> hide_buttons (tree s1) = hide_buttons (tree s)" if "guarded (tree s)"
  proof -
    have "?u = s" using a that by simp
    then show ?thesis using k that by (simp add: keeps_cells_def)
  qed
  show "s1 = s \<or> guarded (tree s1)"
  proof (cases "guarded (tree ?u)")
    case True
    then show ?thesis using k by (simp add: keeps_cells_def)
  next
    case False
    then have "?u = s" using a by blast
    moreover from this have "\<not> guarded (tree s)" using False by simp
    ultimately show ?thesis using b by blast
  qed
qed

lemma guarded_runs:
  "inputCells_stored cells s \<Longrightarrow> guarded (tree s) \<Longrightarrow>
     hide_buttons (tree (repeat_initHiddenCells n s)) = hide_buttons (tree s)"
proof (induction n arbitrary: s)
  case 0
  then show ?case by simp
next
  case (Suc n)
  note r = initHiddenCells_run[OF Suc.prems(1)]
  have "hide_buttons (tree (repeat_initHiddenCells n (state_of (initHiddenCells s))))
        = hide_buttons (tree (state_of (initHiddenCells s)))"
    using Suc.IH r(1) r(4)[OF Suc.prems(2)] by blast
  then show ?case using r(4)[OF Suc.prems(2)] by simp
qed

section \<open>Hiding the cells\<close>

















section \<open>Registering the routines\<close>








section \<open>The work of the routines that wait\<close>












section \<open>Parents and siblings\<close>

lemma parent_in_annot:
  "p \<in> set (annot up prevs n) \<Longrightarrow> (\<exists>l. p = l # up) \<or> tl p \<in> set (annot up prevs n)"
  "p \<in> set (annot_children up prevs ns) \<Longrightarrow>
     (\<exists>l. p = l # up) \<or> tl p \<in> set (annot_children up prevs ns)"
proof (induction up prevs n and up prevs ns rule: annot_annot_children.induct)
  case (1 up prevs s)
  then show ?case by simp
next
  case (2 up prevs i t a c cs)
  let ?P = "(EInfo i t a c, prevs) # up"
  show ?case
  proof (cases "p = ?P")
    case True
    then show ?thesis by blast
  next
    case False
    then have "p \<in> set (annot_children ?P [] cs)" using 2(2) by simp
    then have "(\<exists>l. p = l # ?P) \<or> tl p \<in> set (annot_children ?P [] cs)" using 2(1) by blast
    then show ?thesis by auto
  qed
next
  case (3 up prevs)
  then show ?case by simp
next
  case (4 up prevs n ns)
  from 4(3) consider "p \<in> set (annot up prevs n)"
    | "p \<in> set (annot_children up (case info n of None \<Rightarrow> prevs | Some e \<Rightarrow> e # prevs) ns)"
    by auto
  then show ?case
  proof cases
    case 1
    then show ?thesis using 4(1) by auto
  next
    case 2
    then show ?thesis using 4(2) by auto
  qed
qed

text \<open>The position of the parent of an element is a position of the tree.\<close>

lemma parent_position:
  assumes "l # q \<in> set (positions d)" and "q \<noteq> []"
  shows "q \<in> set (positions d)"
  using parent_in_annot(1)[of "l # q" "[]" "[]" d] assms by (auto simp: positions_def)

lemma drop_position:
  assumes "p \<in> set (positions d)" and "i < length p"
  shows "drop i p \<in> set (positions d)"
  using assms(2)
proof (induction i)
  case 0
  then show ?case using assms(1) by simp
next
  case (Suc i)
  then have "drop i p \<in> set (positions d)" by simp
  moreover have "drop i p = p ! i # drop (Suc i) p"
    using Suc.prems by (simp add: Cons_nth_drop_Suc)
  moreover have "drop (Suc i) p \<noteq> []" using Suc.prems by simp
  ultimately show ?case using parent_position by metis
qed



lemma position_unique:
  assumes "wf_tree d" and "p \<in> set (positions d)" and "q \<in> set (positions d)"
    and "enid (self p) = enid (self q)"
  shows "p = q"
proof -
  have "map (\<lambda>p. enid (self p)) (positions d) = map enid (infos d)"
    by (simp add: self_positions[symmetric])
  then have "distinct (map (\<lambda>p. enid (self p)) (positions d))"
    using assms(1) by (simp add: wf_tree_def)
  then have "inj_on (\<lambda>p. enid (self p)) (set (positions d))"
    by (simp add: distinct_map)
  then show ?thesis using assms(2,3,4) by (auto dest: inj_onD)
qed

text \<open>Where cells do not nest, a path from the root passes through one stored cell at most.\<close>

lemma one_cell_on_path:
  assumes nn: "no_nesting cells d" and p: "p \<in> set (positions d)"
    and l1: "l1 \<in> set p" "enid (fst l1) \<in> set cells"
    and l2: "l2 \<in> set p" "enid (fst l2) \<in> set cells"
  shows "enid (fst l1) = enid (fst l2)"
proof -
  have below: "False" if "i < j" "j < length p" "enid (fst (p ! i)) \<in> set cells"
    "enid (fst (p ! j)) \<in> set cells" for i j
  proof -
    let ?q = "drop i p"
    have "i < length p" using that(1,2) by simp
    then have q: "?q \<in> set (positions d)" using p by (intro drop_position)
    have qi: "?q = p ! i # drop (Suc i) p" using that(1,2) by (simp add: Cons_nth_drop_Suc)
    have s: "self ?q = fst (p ! i)" by (simp add: qi self_def)
    have "drop (Suc i) p ! (j - Suc i) = p ! j" "j - Suc i < length (drop (Suc i) p)"
      using that(1,2) by simp_all
    then have "p ! j \<in> set (drop (Suc i) p)" by (metis nth_mem)
    then have "fst (p ! j) \<in> set (ancestors ?q)" by (simp add: qi ancestors_def)
    then show False using nn q s that(3,4) unfolding no_nesting_def by metis
  qed
  obtain i where i: "i < length p" "p ! i = l1" using l1(1) by (auto simp: in_set_conv_nth)
  obtain j where j: "j < length p" "p ! j = l2" using l2(1) by (auto simp: in_set_conv_nth)
  consider "i = j" | "i < j" | "j < i" by linarith
  then show ?thesis
  proof cases
    case 1
    then show ?thesis using i j by simp
  next
    case 2
    then show ?thesis using below[of i j] i j l1(2) l2(2) by simp
  next
    case 3
    then show ?thesis using below[of j i] i j l1(2) l2(2) by simp
  qed
qed

text \<open>Appending new nodes to an element does not make cells nest.\<close>

lemma no_nesting_append_children:
  assumes "no_nesting cells d" and "\<forall>e \<in> set (concat (map infos new)). enid e \<notin> set cells"
  shows "no_nesting cells (append_children t new d)"
proof -
  let ?Q = "\<lambda>p. enid (self p) \<in> set cells \<and> (\<exists>a \<in> set (ancestors p). enid a \<in> set cells)"
  have "filter ?Q (positions (append_children t new d)) = filter ?Q (positions d)"
    using assms(2) by (intro filter_positions_append_children) blast
  moreover have "filter ?Q (positions d) = []"
    using assms(1) unfolding no_nesting_def filter_empty_conv by blast
  ultimately have "filter ?Q (positions (append_children t new d)) = []" by simp
  then show ?thesis unfolding no_nesting_def filter_empty_conv by blast
qed

section \<open>One hide button for a cell\<close>

lemma filter_one:
  "distinct (map f xs) \<Longrightarrow> length (filter (\<lambda>x. f x = a) xs) \<le> 1"
proof (induction xs)
  case Nil
  then show ?case by simp
next
  case (Cons x xs)
  show ?case
  proof (cases "f x = a")
    case True
    then have "\<forall>y \<in> set xs. f y \<noteq> a" using Cons.prems by (auto simp: image_iff)
    then have "filter (\<lambda>x. f x = a) xs = []" by (simp add: filter_empty_conv)
    then show ?thesis using True by simp
  next
    case False
    then show ?thesis using Cons by simp
  qed
qed

lemma positions_distinct: "wf_tree d \<Longrightarrow> distinct (map (\<lambda>p. enid (self p)) (positions d))"
proof -
  have "map (\<lambda>p. enid (self p)) (positions d) = map enid (infos d)"
    by (simp add: self_positions[symmetric])
  then show "wf_tree d \<Longrightarrow> distinct (map (\<lambda>p. enid (self p)) (positions d))"
    by (simp add: wf_tree_def)
qed

lemma ancestors_map_level:
  "map enid (ancestors (map (map_level g) p)) = map (\<lambda>e. enid (g e)) (ancestors p)"
proof -
  have "fst (map_level g l) = g (fst l)" for l by (cases l) simp
  then show ?thesis by (simp add: ancestors_def map_tl comp_def)
qed

lemma buttons_below_class_only:
  assumes "class_only ''hidden'' g"
  shows "buttons_below c (map_info g d) = buttons_below c d"
proof -
  let ?Q = "\<lambda>p. is_hide_button (self p) \<and> c \<in> set (map enid (ancestors p))"
  let ?F = "map (map_level g)"
  have e: "enid (g x) = enid x" "etag (g x) = etag x" for x
    using assms by (simp_all add: class_only_def)
  have hb: "is_hide_button (g x) = is_hide_button x" for x
    using class_only_classes[OF assms, of "''hidebtn''" x] by (simp add: is_hide_button_def e)
  have q: "?Q (?F p) = ?Q p" if "p \<in> set (positions d)" for p
  proof -
    have "self (?F p) = g (self p)" using positions_nonempty[OF that] by (rule self_map_level)
    moreover have "map enid (ancestors (?F p)) = map enid (ancestors p)"
      by (simp add: ancestors_map_level e)
    ultimately show ?thesis by (simp add: hb)
  qed
  have "filter ?Q (map ?F (positions d)) = map ?F (filter (\<lambda>p. ?Q (?F p)) (positions d))"
    by (simp add: filter_map comp_def)
  also have "filter (\<lambda>p. ?Q (?F p)) (positions d) = filter ?Q (positions d)"
    by (rule filter_cong[OF refl]) (rule q)
  finally show ?thesis
    by (simp add: buttons_below_def positions_map_info)
qed

lemma hideItem_below: "buttons_below c (tree (state_of (hideItem item u))) = buttons_below c (tree u)"
proof (cases "querySelector
       [Descendant (Simple (id_sel (js_string (getAttribute item ''data-id'' (tree u)))))
          (tag_class ''div'' ''highlight'')] (tree u)")
  case None
  then have "state_of (hideItem item u) = u"
    by (simp add: hideItem_def setCodeCellVisibility_def)
  then show ?thesis by simp
next
  case (Some h)
  then have "tree (state_of (hideItem item u)) = classList_add_tree h ''hidden'' (tree u)"
    by (simp add: hideItem_def setCodeCellVisibility_def classList_add_def)
  then show ?thesis
    by (simp add: classList_add_tree_def buttons_below_class_only[OF class_only_add])
qed

lemma hideItem_loop_below:
  "buttons_below c (tree (state_of (forEach items hideItem u))) = buttons_below c (tree u)"
  by (rule forEach_preserves[where P = "\<lambda>w. buttons_below c (tree w) = buttons_below c (tree u)"])
     (simp_all add: hideItem_below)

text \<open>A hide button appended for the cell \<open>c\<close> is below no other stored cell.\<close>

lemma hide_insert_below:
  fixes ident :: string
  assumes wf: "wf_tree d" and fr: "\<forall>e \<in> set (infos d). enid e < k"
    and tgt: "querySelector_within c [Simple (tag_class ''div'' ''input'')] d = Some t"
    and cell: "lookup c d = Some ec" "etag ec = ''div''" "''tag_hide_input'' \<in> set (eclasses ec)"
    and nn: "no_nesting cells d" and c: "c \<in> set cells" and c': "c' \<in> set cells"
    and lt: "\<forall>a \<in> set cells. a < k"
  defines "d1 \<equiv> append_children t (hideCodeButton ident k) d"
  shows "buttons_below c' d1 \<le> buttons_below c' d + (if c' = c then 1 else 0)"
    and "no_nesting cells d1"
proof -
  let ?new = "concat (map infos (hideCodeButton ident k))"
  let ?Q = "\<lambda>p. is_hide_button (self p) \<and> c' \<in> set (map enid (ancestors p))"
  let ?N = "\<lambda>p. enid (self p) = k"
  note h = hide_insert[OF wf fr tgt cell, where ident = ident, folded d1_def]
  have newids: "e \<in> set ?new \<Longrightarrow> enid e = k \<or> \<not> is_hide_button e" for e
    unfolding infos_hideCodeButton by (auto simp: hide_input_def hide_label_def is_hide_button_def)
  have old: "filter (\<lambda>p. ?Q p \<and> \<not> ?N p) (positions d1) = filter (\<lambda>p. ?Q p \<and> \<not> ?N p) (positions d)"
    unfolding d1_def using newids by (intro filter_positions_append_children) blast
  have "filter (\<lambda>p. ?Q p \<and> \<not> ?N p) (positions d) = filter ?Q (positions d)"
  proof (rule filter_cong[OF refl])
    fix p assume "p \<in> set (positions d)"
    then have "self p \<in> set (infos d)" using self_positions[of d] by (metis imageI list.set_map)
    then have "enid (self p) \<noteq> k" using fr by auto
    then show "(?Q p \<and> \<not> ?N p) = ?Q p" by simp
  qed
  then have oldlen: "length (filter (\<lambda>p. ?Q p \<and> \<not> ?N p) (positions d1)) = buttons_below c' d"
    using old by (simp add: buttons_below_def)
  have split: "buttons_below c' d1
       = length (filter (\<lambda>p. ?Q p \<and> ?N p) (positions d1))
         + length (filter (\<lambda>p. ?Q p \<and> \<not> ?N p) (positions d1))"
    unfolding buttons_below_def
    using sum_length_filter_compl[of ?N "filter ?Q (positions d1)"]
    by (simp add: conj_commute)
  have "filter (\<lambda>p. ?Q p \<and> ?N p) (positions d1) = filter ?Q (filter ?N (positions d1))"
    by (simp add: conj_commute)
  then have "length (filter (\<lambda>p. ?Q p \<and> ?N p) (positions d1)) \<le> length (filter ?N (positions d1))"
    by (metis length_filter_le)
  also have "\<dots> \<le> 1"
    using filter_one[OF positions_distinct[OF h(1)], of k] by simp
  finally have le1: "length (filter (\<lambda>p. ?Q p \<and> ?N p) (positions d1)) \<le> 1" .
  have none: "filter (\<lambda>p. ?Q p \<and> ?N p) (positions d1) = []" if ne: "c' \<noteq> c"
  proof -
    obtain P prevs where P: "P \<in> set (positions d)" "c \<in> enid ` set (ancestors P)"
      "(hide_input ident k, prevs) # P \<in> set (positions d1)"
      using h(8) by blast
    have "\<not> (?Q p \<and> ?N p)" if p: "p \<in> set (positions d1)" for p
    proof
      assume a: "?Q p \<and> ?N p"
      have "enid (self p) = enid (self ((hide_input ident k, prevs) # P))"
        using a by (simp add: self_def hide_input_def)
      then have "p = (hide_input ident k, prevs) # P"
        using position_unique[OF h(1) p P(3)] by simp
      then have "c' \<in> enid ` fst ` set P" using a by (auto simp: ancestors_def)
      then obtain l1 where l1: "l1 \<in> set P" "enid (fst l1) = c'" by auto
      obtain l2 where l2: "l2 \<in> set P" "enid (fst l2) = c"
        using P(2) by (cases P) (auto simp: ancestors_def)
      have "enid (fst l1) = enid (fst l2)"
        using nn P(1) l1(1) _ l2(1) by (rule one_cell_on_path) (simp_all add: l1 l2 c c')
      then show False using ne l1 l2 by simp
    qed
    then show ?thesis by (simp add: filter_empty_conv)
  qed
  show "buttons_below c' d1 \<le> buttons_below c' d + (if c' = c then 1 else 0)"
    using split oldlen le1 none by (cases "c' = c") simp_all
  have "\<forall>e \<in> set ?new. enid e \<notin> set cells"
    using lt unfolding infos_hideCodeButton by (auto simp: hide_input_def hide_label_def)
  then show "no_nesting cells d1"
    unfolding d1_def using nn by (intro no_nesting_append_children)
qed

lemma hide_loop_below:
  assumes "wf_tree (tree u)" and "fresh u" and "\<forall>c \<in> set all. is_div (tree u) c"
    and "set cs \<subseteq> set all" and "distinct cs" and "no_nesting all (tree u)"
  shows "\<forall>c' \<in> set all.
           buttons_below c' (tree (state_of (forEach cs hideButtonFor u)))
             \<le> buttons_below c' (tree u) + (if c' \<in> set cs \<and> tagged (tree u) c' then 1 else 0)"
  using assms
proof (induction cs arbitrary: u)
  case Nil
  then show ?case by simp
next
  case (Cons c cs)
  let ?r = "hideButtonFor c u"
  let ?v = "state_of ?r"
  let ?res = "\<lambda>cs w. state_of (forEach cs hideButtonFor w)"
  have wf: "wf_tree (tree u)" and fr: "fresh u" and dva: "\<forall>c' \<in> set all. is_div (tree u) c'"
    and sub: "set cs \<subseteq> set all" and cin: "c \<in> set all" and dist: "distinct cs" "c \<notin> set cs"
    and nn: "no_nesting all (tree u)"
    using Cons.prems by simp_all
  have dv: "is_div (tree u) c" using dva cin by blast
  have lt: "\<forall>a \<in> set all. a < nextId u"
  proof
    fix a assume "a \<in> set all"
    then have "lookup a (tree u) \<noteq> None" using dva is_div_lookup by fastforce
    then show "a < nextId u" using fr fresh_lookup by blast
  qed
  from hideButtonFor_step[OF wf fr dv]
  consider (skip) "\<not> tagged (tree u) c" "?r = Done u"
    | (fail) "tagged (tree u) c" "?r = Throws TypeError u"
    | (ins) t where "tagged (tree u) c"
        "querySelector_within c [Simple (tag_class ''div'' ''input'')] (tree u) = Some t"
        "tree ?v = append_children t
                   (hideCodeButton (js_string (getAttribute c ''id'' (tree u))) (nextId u)) (tree u)"
        "nextId ?v = nextId u + 4"
    by blast
  then show ?case
  proof cases
    case skip
    note ih = Cons.IH[OF wf fr dva sub dist(1) nn]
    show ?thesis
    proof
      fix c' assume "c' \<in> set all"
      then show "buttons_below c' (tree (?res (c # cs) u))
             \<le> buttons_below c' (tree u) + (if c' \<in> set (c # cs) \<and> tagged (tree u) c' then 1 else 0)"
        using ih skip by (auto split: if_splits)
    qed
  next
    case fail
    then show ?thesis by simp
  next
    case ins
    obtain ec where ec: "lookup c (tree u) = Some ec" "etag ec = ''div''"
      using is_div_lookup[OF dv] by blast
    have cls: "''tag_hide_input'' \<in> set (eclasses ec)"
      using ins(1) ec(1) by (simp add: tagged_def classList_contains_def)
    note h = hide_insert[OF wf fr[unfolded fresh_iff] ins(2) ec cls,
        where ident = "js_string (getAttribute c ''id'' (tree u))", folded ins(3)]
    note b = hide_insert_below[OF wf fr[unfolded fresh_iff] ins(2) ec cls nn cin _ lt,
        where ident = "js_string (getAttribute c ''id'' (tree u))", folded ins(3)]
    have wfv: "wf_tree (tree ?v)" using h(1) .
    have frv: "fresh ?v" using h(2) ins(4) by (simp add: fresh_iff)
    have same: "lookup a (tree ?v) = lookup a (tree u)" if "a \<in> set all" for a
      using h(3) lt that by simp
    have dvv: "\<forall>a \<in> set all. is_div (tree ?v) a"
      using dva is_div_cong[OF same] by blast
    have nnv: "no_nesting all (tree ?v)"
      using b(2) cin by blast
    have step: "buttons_below c' (tree ?v) \<le> buttons_below c' (tree u) + (if c' = c then 1 else 0)"
      if "c' \<in> set all" for c'
      using b(1)[OF that] .
    show ?thesis
    proof
      fix c' assume c': "c' \<in> set all"
      show "buttons_below c' (tree (?res (c # cs) u))
             \<le> buttons_below c' (tree u) + (if c' \<in> set (c # cs) \<and> tagged (tree u) c' then 1 else 0)"
      proof (cases ?r)
        case (Throws e w)
        then have w: "?res (c # cs) u = ?v" by simp
        show ?thesis unfolding w using step[OF c'] ins(1) by (auto split: if_splits)
      next
        case (Done w)
        then have w: "?res (c # cs) u = ?res cs ?v" by simp
        have "buttons_below c' (tree (?res cs ?v))
              \<le> buttons_below c' (tree ?v) + (if c' \<in> set cs \<and> tagged (tree ?v) c' then 1 else 0)"
          using Cons.IH[OF wfv frv dvv sub dist(1) nnv] c' by blast
        moreover have "tagged (tree ?v) c' = tagged (tree u) c'"
          using tagged_cong[OF same[OF c']] .
        ultimately show ?thesis
          unfolding w using step[OF c'] ins(1) dist(2) by (auto split: if_splits)
      qed
    qed
  qed
qed

text \<open>One run of \<^verbatim>\<open>initHiddenCells\<close>, whether it returns or throws.\<close>

lemma initHiddenCells_loop_below:
  "buttons_below c (tree (state_of (initHiddenCells s)))
     = buttons_below c (tree (state_of (addHideButton s)))"
  by (cases "addHideButton s") (simp_all add: initHiddenCells_def hideItem_loop_below)

lemma initHiddenCells_guarded_below:
  assumes "guarded (tree s)"
  shows "buttons_below c (tree (state_of (initHiddenCells s))) = buttons_below c (tree s)"
proof -
  have "state_of (addHideButton s) = s"
    using assms by (simp add: addHideButton_def guarded_def)
  then show ?thesis by (simp add: initHiddenCells_loop_below)
qed

lemma initHiddenCells_below:
  assumes st: "inputCells_stored cells s" and dist: "distinct cells"
    and nn: "no_nesting cells (tree s)" and c: "c \<in> set cells"
  shows "buttons_below c (tree (state_of (initHiddenCells s)))
           \<le> buttons_below c (tree s) + (if tagged (tree s) c then 1 else 0)"
proof (cases "guarded (tree s)")
  case True
  then show ?thesis by (simp add: initHiddenCells_guarded_below)
next
  case False
  have wf: "wf_tree (tree s)" and fr: "fresh s" and pe: "pageElements s ''inputCells'' = Some cells"
    and dv: "\<forall>c \<in> set cells. is_div (tree s) c"
    using st by (simp_all add: inputCells_stored_def list_all_iff)
  have "addHideButton s = forEach cells hideButtonFor s"
    using False pe by (simp add: addHideButton_def guarded_def)
  then show ?thesis
    using hide_loop_below[OF wf fr dv subset_refl dist nn] c
    by (auto simp: initHiddenCells_loop_below split: if_splits)
qed

lemma guarded_below_runs:
  "inputCells_stored cells s \<Longrightarrow> guarded (tree s) \<Longrightarrow>
     buttons_below c (tree (repeat_initHiddenCells n s)) = buttons_below c (tree s)"
proof (induction n arbitrary: s)
  case 0
  then show ?case by simp
next
  case (Suc n)
  note r = initHiddenCells_run[OF Suc.prems(1)]
  have "buttons_below c (tree (repeat_initHiddenCells n (state_of (initHiddenCells s))))
        = buttons_below c (tree (state_of (initHiddenCells s)))"
    using Suc.IH r(1) r(4)[OF Suc.prems(2)] by blast
  then show ?case using initHiddenCells_guarded_below[OF Suc.prems(2)] by simp
qed

lemma below_runs:
  "inputCells_stored cells s \<Longrightarrow> distinct cells \<Longrightarrow> no_nesting cells (tree s) \<Longrightarrow>
   c \<in> set cells \<Longrightarrow>
     buttons_below c (tree (repeat_initHiddenCells n s))
       \<le> buttons_below c (tree s) + (if tagged (tree s) c then 1 else 0)"
proof (induction n arbitrary: s)
  case 0
  then show ?case by simp
next
  case (Suc n)
  let ?s1 = "state_of (initHiddenCells s)"
  note r = initHiddenCells_run[OF Suc.prems(1)]
  note b = initHiddenCells_below[OF Suc.prems]
  from r(5) show ?case
  proof
    assume "?s1 = s"
    then show ?thesis using Suc.IH[OF Suc.prems] by simp
  next
    assume "guarded (tree ?s1)"
    then have "buttons_below c (tree (repeat_initHiddenCells n ?s1)) = buttons_below c (tree ?s1)"
      using guarded_below_runs[OF r(1)] by blast
    then show ?thesis using b by simp
  qed
qed

lemma total_runs:
  "inputCells_stored cells s \<Longrightarrow>
      hide_buttons (tree (repeat_initHiddenCells n s))
        \<le> hide_buttons (tree s) + length (filter (tagged (tree s)) cells)"
proof (induction n arbitrary: s)
  case 0
  then show ?case by simp
next
  case (Suc n)
  let ?s1 = "state_of (initHiddenCells s)"
  note r = initHiddenCells_run[OF Suc.prems]
  from r(5) show ?case
  proof
    assume "?s1 = s"
    then show ?thesis using Suc.IH[OF Suc.prems] by simp
  next
    assume "guarded (tree ?s1)"
    then have "hide_buttons (tree (repeat_initHiddenCells n ?s1)) = hide_buttons (tree ?s1)"
      using guarded_runs[OF r(1)] by blast
    then show ?thesis using r(3) by simp
  qed
qed

lemma addHideButton_idem:
  assumes "inputCells_stored cells s"
  shows "addHideButton (state_of (addHideButton s)) = Done (state_of (addHideButton s)) \<or>
         state_of (addHideButton s) = s"
proof (cases "guarded (tree s)")
  case True
  then show ?thesis by (simp add: addHideButton_def guarded_def)
next
  case False
  have wf: "wf_tree (tree s)" and fr: "fresh s" and pe: "pageElements s ''inputCells'' = Some cells"
    and dv: "\<forall>c \<in> set cells. is_div (tree s) c"
    using assms by (simp_all add: inputCells_stored_def list_all_iff)
  have run: "addHideButton s = forEach cells hideButtonFor s"
    using False pe by (simp add: addHideButton_def guarded_def)
  note l = hide_loop_count[OF wf fr dv, folded run]
  then have "state_of (addHideButton s) = s \<or> guarded (tree (state_of (addHideButton s)))"
    by blast
  then show ?thesis by (auto simp: addHideButton_def guarded_def)
qed

text \<open>
  Claim C8, for stored cells that do not nest. Where the document already has an element
  that matches \<^verbatim>\<open>div.tag_hide_input input\<close>, \<^verbatim>\<open>addHideButton\<close> returns at once in the state it
  was called in. A second call of \<^verbatim>\<open>addHideButton\<close> right after a first one changes nothing:
  the document and all the rest stay as the first call has left them. Any number of runs of
  \<^verbatim>\<open>initHiddenCells\<close>, whether they return or throw, leave below each stored cell at most one
  more hide button than before, and none more below a cell that is not tagged; in the whole
  page they add no more hide buttons than there are tagged cells.
\<close>

theorem addHideButton_once:
  assumes "inputCells_stored cells s" and "distinct cells" and "no_nesting cells (tree s)"
  shows "(querySelector hideButtonGuard (tree s) \<noteq> None \<longrightarrow> addHideButton s = Done s) \<and>
         state_of (addHideButton (state_of (addHideButton s))) = state_of (addHideButton s) \<and>
         (\<forall>c \<in> set cells.
            buttons_below c (tree (repeat_initHiddenCells n s))
              \<le> buttons_below c (tree s) + (if tagged (tree s) c then 1 else 0)) \<and>
         hide_buttons (tree (repeat_initHiddenCells n s))
           \<le> hide_buttons (tree s) + length (filter (tagged (tree s)) cells)"
proof -
  have a: "querySelector hideButtonGuard (tree s) \<noteq> None \<longrightarrow> addHideButton s = Done s"
    by (simp add: addHideButton_def)
  have b: "state_of (addHideButton (state_of (addHideButton s))) = state_of (addHideButton s)"
    using addHideButton_idem[OF assms(1)] by auto
  have c: "\<forall>c \<in> set cells.
            buttons_below c (tree (repeat_initHiddenCells n s))
              \<le> buttons_below c (tree s) + (if tagged (tree s) c then 1 else 0)"
    using below_runs[OF assms] by blast
  show ?thesis using a b c total_runs[OF assms(1)] by blast
qed

lemma cellsState_stored:
  "inputCells_stored [2, 10] cellsState" "distinct [2, 10::nat]"
  "no_nesting [2, 10] (tree cellsState)"
  "inputCells_stored [2, 10] hiddenState" "no_nesting [2, 10] (tree hiddenState)"
  "querySelector hideButtonGuard (tree hiddenState) \<noteq> None"
  by code_simp+

theorem addHideButton_once_witness:
  "inputCells_stored [2, 10] cellsState \<and> distinct [2, 10::nat] \<and>
   no_nesting [2, 10] (tree cellsState) \<and>
   inputCells_stored [2, 10] hiddenState \<and> no_nesting [2, 10] (tree hiddenState) \<and>
   querySelector hideButtonGuard (tree hiddenState) \<noteq> None \<and>
   addHideButton hiddenState = Done hiddenState \<and>
   state_of (addHideButton (state_of (addHideButton cellsState)))
     = state_of (addHideButton cellsState) \<and>
   buttons_below 2 (tree (repeat_initHiddenCells 3 cellsState))
     \<le> buttons_below 2 (tree cellsState) + (if tagged (tree cellsState) 2 then 1 else 0) \<and>
   buttons_below 10 (tree (repeat_initHiddenCells 3 cellsState))
     \<le> buttons_below 10 (tree cellsState) + (if tagged (tree cellsState) 10 then 1 else 0) \<and>
   hide_buttons (tree (repeat_initHiddenCells 3 cellsState))
     \<le> hide_buttons (tree cellsState) + length (filter (tagged (tree cellsState)) [2, 10])"
proof -
  note a = addHideButton_once[OF cellsState_stored(4,2,5), of 3]
  note b = addHideButton_once[OF cellsState_stored(1,2,3), of 3]
  have m: "(2::nat) \<in> set [2, 10]" "(10::nat) \<in> set [2, 10]" by simp_all
  have "addHideButton hiddenState = Done hiddenState"
    using a cellsState_stored(6) by blast
  moreover have "buttons_below 2 (tree (repeat_initHiddenCells 3 cellsState))
     \<le> buttons_below 2 (tree cellsState) + (if tagged (tree cellsState) 2 then 1 else 0)"
    "buttons_below 10 (tree (repeat_initHiddenCells 3 cellsState))
     \<le> buttons_below 10 (tree cellsState) + (if tagged (tree cellsState) 10 then 1 else 0)"
    using b m by blast+
  ultimately show ?thesis using b cellsState_stored by blast
qed

text \<open>
  Where a tagged cell holds another tagged cell and has no \<^verbatim>\<open>div.input\<close> before it, one run
  appends the hide buttons of both cells to the \<^verbatim>\<open>div.input\<close> of the inner cell: two hide
  buttons below it, where there was none.
\<close>

theorem addHideButton_once_counterexample:
  "inputCells_stored [2, 3] nestedState \<and> distinct [2, 3::nat] \<and>
   \<not> no_nesting [2, 3] (tree nestedState) \<and> tagged (tree nestedState) 3 \<and>
   buttons_below 3 (tree nestedState) = 0 \<and>
   buttons_below 3 (tree (repeat_initHiddenCells 1 nestedState)) = 2"
  by code_simp























end
